theory Spec2Isabelle
  imports
    Main
    "HOL-Library.Char_ord"
    "HOL-Library.List_Lexorder"
    "HOL-Library.Product_Lexorder"
begin

section \<open>pattern-break: numeric coverage extraction, grouping and gap detection\<close>

text \<open>
  A shallow embedding of the core of \<^verbatim>\<open>pattern-break.py\<close>: \<^verbatim>\<open>parse_coverage_list\<close>,
  \<^verbatim>\<open>group_items\<close> with its helpers, and \<^verbatim>\<open>detect_breaks_in_group\<close> with its helpers.

  Conventions of the embedding.
  \<^item> Python's unbounded \<^verbatim>\<open>int\<close> is \<^typ>\<open>int\<close>; \<^verbatim>\<open>//\<close> is \<open>div\<close> (both round towards
    minus infinity).
  \<^item> A Python \<^verbatim>\<open>str\<close> is a \<^typ>\<open>string\<close>, a character being a code point below 256;
    among these \<^verbatim>\<open>\d\<close> matches exactly the ten characters \<open>0\<close> .. \<open>9\<close>.
  \<^item> An exception is a value of \<open>py_error\<close>; a function that can raise returns
    \<open>py_error + 'a\<close>.
  \<^item> The \<^verbatim>\<open>while\<close> loop of \<^verbatim>\<open>build_missing_segment\<close> need not terminate; it is a partial
    function in the option monad, \<open>None\<close> meaning that the loop runs forever.
  \<^item> The regular-expression engine is Python's library, not code of the program. The
    three fixed patterns of the program (\<^verbatim>\<open>(\d+)\<close>, \<^verbatim>\<open>\d+$\<close> and the default
    \<^verbatim>\<open>(\d+)-(\d+)\<close>) are implemented; a pattern supplied by the user is a parameter, namely
    the function that \<^verbatim>\<open>re.findall\<close> (or \<^verbatim>\<open>re.search\<close>) computes for it.
\<close>

subsection \<open>Python primitives\<close>

datatype py_error = ValueError | IndexError

definition is_digit :: "char \<Rightarrow> bool" where
  "is_digit c = (c \<in> set ''0123456789'')"

text \<open>The value of one decimal digit: its place among the ten digits.\<close>

definition digit_val :: "char \<Rightarrow> nat" where
  "digit_val c = length (takeWhile (\<lambda>d. d \<noteq> c) ''0123456789'')"

definition dec_val :: "string \<Rightarrow> nat" where
  "dec_val ds = foldl (\<lambda>a c. 10 * a + digit_val c) 0 ds"

text \<open>
  The characters that \<^verbatim>\<open>int()\<close> skips at both ends of its argument: tab, line feed,
  vertical tab, form feed, carriage return and the blank, and the two space characters
  from 128 on, U+0085 and U+00A0, which it first turns into blanks. The separators 0x1C
  to 0x1F are not skipped: with one of them the argument is no integer literal.
\<close>

definition is_space :: "char \<Rightarrow> bool" where
  "is_space c = (c \<in> set [CHR 0x09, CHR 0x0A, CHR 0x0B, CHR 0x0C, CHR 0x0D, CHR '' '',
                           CHR 0x85, CHR 0xA0])"

definition strip :: "string \<Rightarrow> string" where
  "strip s = rev (dropWhile is_space (rev (dropWhile is_space s)))"

text \<open>The digit part of an integer literal: digits, single underscores between them.\<close>

fun digits_us_ok :: "string \<Rightarrow> bool" where
  "digits_us_ok [] = False"
| "digits_us_ok [c] = is_digit c"
| "digits_us_ok (c # d # r) =
     (is_digit c \<and> (if d = CHR ''_'' then digits_us_ok r else digits_us_ok (d # r)))"

text \<open>
  The greatest number of digits that \<^verbatim>\<open>int()\<close> converts: the default of
  \<^verbatim>\<open>sys.get_int_max_str_digits()\<close>, which the program does not change.
\<close>

definition max_str_digits :: nat where
  "max_str_digits = 4300"

text \<open>
  \<^verbatim>\<open>int(s)\<close> for a string \<open>s\<close>, in base ten: surrounding whitespace, an optional sign, the
  digits. \<open>None\<close> is \<^verbatim>\<open>ValueError\<close>, which is raised for a string that is no integer
  literal and for a literal of more digits (underscores not counted) than the limit.
\<close>

definition py_int :: "string \<Rightarrow> int option" where
  "py_int s =
     (let t = strip s;
          neg = (t \<noteq> [] \<and> hd t = CHR ''-'');
          body = (if t \<noteq> [] \<and> (hd t = CHR ''-'' \<or> hd t = CHR ''+'') then tl t else t);
          digits = filter (\<lambda>c. c \<noteq> CHR ''_'') body
      in if digits_us_ok body \<and> length digits \<le> max_str_digits
         then Some ((if neg then - 1 else 1) * int (dec_val digits))
         else None)"

text \<open>
  \<^verbatim>\<open>str(n)\<close> for an integer \<open>n\<close>: its decimal numeral. The limit on the number of digits
  applies to \<^verbatim>\<open>str\<close> as well, for integers of more than 4300 digits; it is not part of
  this function, so that the results on gap detection are about integers of at
  most 4300 digits.
\<close>

definition digit_char :: "nat \<Rightarrow> char" where
  "digit_char n = ''0123456789'' ! n"

fun str_nat :: "nat \<Rightarrow> string" where
  "str_nat n = (if n < 10 then [digit_char n] else str_nat (n div 10) @ [digit_char (n mod 10)])"

declare str_nat.simps [simp del]

definition py_str :: "int \<Rightarrow> string" where
  "py_str i = (if i < 0 then CHR ''-'' # str_nat (nat (- i)) else str_nat (nat i))"

text \<open>\<^verbatim>\<open>s.zfill(width)\<close>: zeros go after a leading sign.\<close>

definition zfill :: "string \<Rightarrow> nat \<Rightarrow> string" where
  "zfill s width =
     (if width \<le> length s then s
      else if s \<noteq> [] \<and> (hd s = CHR ''+'' \<or> hd s = CHR ''-'')
      then hd s # replicate (width - length s) CHR ''0'' @ tl s
      else replicate (width - length s) CHR ''0'' @ s)"

text \<open>\<^verbatim>\<open>s.find(sub)\<close>: the lowest index at which \<open>sub\<close> occurs; \<open>None\<close> is the result \<open>-1\<close>.\<close>

fun py_find :: "string \<Rightarrow> string \<Rightarrow> nat option" where
  "py_find [] sub = (if sub = [] then Some 0 else None)"
| "py_find (c # cs) sub =
     (if take (length sub) (c # cs) = sub then Some 0 else map_option Suc (py_find cs sub))"

text \<open>\<^verbatim>\<open>re.findall(r"(\d+)", s)\<close>: the maximal digit runs of \<open>s\<close>, from left to right.\<close>

function digit_runs :: "string \<Rightarrow> string list" where
  "digit_runs [] = []"
| "digit_runs (c # cs) =
     (if is_digit c then takeWhile is_digit (c # cs) # digit_runs (dropWhile is_digit cs)
      else digit_runs cs)"
  by pat_completeness auto
termination
  by (relation "measure length") (auto simp: less_Suc_eq_le length_dropWhile_le)

text \<open>
  \<^verbatim>\<open>re.sub(r"\d+$", "", s)\<close>: the digit run at the end of \<open>s\<close> is removed; \<^verbatim>\<open>$\<close> also matches
  just before a newline that ends the string.
\<close>

definition rstrip_digits :: "string \<Rightarrow> string" where
  "rstrip_digits s = rev (dropWhile is_digit (rev s))"

definition sub_trailing_digits :: "string \<Rightarrow> string" where
  "sub_trailing_digits s =
     (if s \<noteq> [] \<and> last s = CHR 0x0A then rstrip_digits (butlast s) @ [CHR 0x0A]
      else rstrip_digits s)"

text \<open>
  One element of the list that \<^verbatim>\<open>re.findall\<close> returns: a string when the pattern has at
  most one group, the tuple of the groups when it has two or more.
\<close>

datatype re_match = Whole string | Groups "string list"

text \<open>
  \<^verbatim>\<open>re.findall(r"(\d+)-(\d+)", s)\<close>, the default of \<^verbatim>\<open>--range-regex\<close>. A match starts at the
  first digit of a run that is followed by a hyphen and a digit; the search goes on after
  the second run.
\<close>

function default_range_regex :: "string \<Rightarrow> re_match list" where
  "default_range_regex [] = []"
| "default_range_regex (c # cs) =
     (if is_digit c then
        (let d1 = takeWhile is_digit (c # cs); r = dropWhile is_digit cs
         in case r of
              [] \<Rightarrow> []
            | h # r2 \<Rightarrow>
                if h = CHR ''-'' \<and> r2 \<noteq> [] \<and> is_digit (hd r2)
                then Groups [d1, takeWhile is_digit r2] # default_range_regex (dropWhile is_digit r2)
                else default_range_regex r2)
      else default_range_regex cs)"
  by pat_completeness auto
termination
proof (relation "measure length")
  show "wf (measure length)" by simp
next
  fix c :: char and cs d1 r h r2
  assume "r = dropWhile is_digit cs" and "r = h # r2"
  then have "length (h # r2) \<le> length cs"
    using length_dropWhile_le [of is_digit cs] by simp
  moreover have "length (dropWhile is_digit r2) \<le> length r2"
    by (rule length_dropWhile_le)
  ultimately show "(dropWhile is_digit r2, c # cs) \<in> measure length"
    and "(r2, c # cs) \<in> measure length"
    by simp_all
next
  fix c :: char and cs
  show "(cs, c # cs) \<in> measure length" by simp
qed


text \<open>
  \<^verbatim>\<open>re.findall(r"([a-z]+)-([a-z]+)", s)\<close>, a range pattern of two groups of letters: a run of
  small letters, a hyphen and a second run of small letters, found from left to right.
\<close>

definition is_lower :: "char \<Rightarrow> bool" where
  "is_lower c = (c \<in> set ''abcdefghijklmnopqrstuvwxyz'')"

function alpha_range_regex :: "string \<Rightarrow> re_match list" where
  "alpha_range_regex [] = []"
| "alpha_range_regex (c # cs) =
     (if is_lower c then
        (let w1 = takeWhile is_lower (c # cs); r = dropWhile is_lower cs
         in case r of
              [] \<Rightarrow> []
            | h # r2 \<Rightarrow>
                if h = CHR ''-'' \<and> r2 \<noteq> [] \<and> is_lower (hd r2)
                then Groups [w1, takeWhile is_lower r2] # alpha_range_regex (dropWhile is_lower r2)
                else alpha_range_regex r2)
      else alpha_range_regex cs)"
  by pat_completeness auto
termination
proof (relation "measure length")
  show "wf (measure length)" by simp
next
  fix c :: char and cs w1 r h r2
  assume "r = dropWhile is_lower cs" and "r = h # r2"
  then have "length (h # r2) \<le> length cs"
    using length_dropWhile_le [of is_lower cs] by simp
  moreover have "length (dropWhile is_lower r2) \<le> length r2"
    by (rule length_dropWhile_le)
  ultimately show "(dropWhile is_lower r2, c # cs) \<in> measure length"
    and "(r2, c # cs) \<in> measure length"
    by simp_all
next
  fix c :: char and cs
  show "(cs, c # cs) \<in> measure length" by simp
qed

text \<open>\<^verbatim>\<open>sorted(set(xs))\<close>: a Python set is kept as the list of the values put into it.\<close>

definition sorted_set :: "int list \<Rightarrow> int list" where
  "sorted_set xs = sort (remdups xs)"

text \<open>\<^verbatim>\<open>max(xs)\<close> raises \<^verbatim>\<open>ValueError\<close> on the empty list.\<close>

definition py_max :: "int list \<Rightarrow> py_error + int" where
  "py_max xs = (case xs of [] \<Rightarrow> Inl ValueError | x # r \<Rightarrow> Inr (foldl max x r))"

text \<open>The truth value of an optional integer argument: \<^verbatim>\<open>None\<close> and \<open>0\<close> are false.\<close>

definition truthy :: "int option \<Rightarrow> bool" where
  "truthy a = (case a of None \<Rightarrow> False | Some n \<Rightarrow> n \<noteq> 0)"

subsection \<open>Data\<close>

text \<open>
  The dictionaries of the program are records with the keys as fields. The key
  \<^verbatim>\<open>size\<close> of an item is the field \<open>fsize\<close>; the keys of an entry of \<^verbatim>\<open>real_cov_items\<close>
  carry the prefix \<open>rc_\<close>.
\<close>

record item =
  path :: string
  name :: string
  fsize :: nat
  is_dir :: bool

record pick =
  item :: item
  coverage :: "int list"

datatype artifact_type = Files | Dirs

record group =
  group_id :: string
  directory :: "string option"
  label :: string
  artifact_type :: artifact_type
  picks :: "pick list"

datatype block_policy = First | Largest | All | MultiBlockAdvanced

text \<open>
  The arguments the core reads from the \<^verbatim>\<open>argparse\<close> namespace. \<open>pattern\<close> is
  \<^verbatim>\<open>re.search(args.pattern, _)\<close> as a predicate, \<open>range_regex\<close> is
  \<^verbatim>\<open>re.findall(args.range_regex, _)\<close>; \<open>filter_arg\<close> is \<^verbatim>\<open>args.filter\<close>. Where a
  function of the program has the parameters \<^verbatim>\<open>multi_range\<close> and \<^verbatim>\<open>range_regex\<close>, they are
  \<open>mr\<close> and \<open>rx\<close> below.
\<close>

record args =
  pattern :: "(string \<Rightarrow> bool) option"
  filter_arg :: "string option"
  group_threshold :: "int option"
  cross_dir_grouping :: bool
  block_policy :: block_policy
  multi_range :: bool
  range_regex :: "string \<Rightarrow> re_match list"
  start_num :: "int option"
  end_num :: "int option"
  mod_boundary :: "int option"
  increment :: int
  explain :: bool

subsection \<open>Coverage parsing\<close>

text \<open>The loop \<^verbatim>\<open>for m in rngs\<close> of \<^verbatim>\<open>coverage_for_block\<close>; \<open>cov\<close> is the set built so far.\<close>

fun add_ranges :: "re_match list \<Rightarrow> int list \<Rightarrow> py_error + int list" where
  "add_ranges [] cov = Inr cov"
| "add_ranges (Whole w # ms) cov = add_ranges ms cov"
| "add_ranges (Groups gs # ms) cov =
     (if 2 \<le> length gs then
        (case py_int (gs ! 0) of
           None \<Rightarrow> Inl ValueError
         | Some st \<Rightarrow>
             (case py_int (gs ! 1) of
                None \<Rightarrow> Inl ValueError
              | Some ed \<Rightarrow> add_ranges ms (cov @ [min st ed .. max st ed])))
      else add_ranges ms cov)"

definition coverage_for_block ::
  "bool \<Rightarrow> (string \<Rightarrow> re_match list) \<Rightarrow> string \<Rightarrow> int \<Rightarrow> py_error + int list" where
  "coverage_for_block mr rx full_name v =
     (if mr then
        (case add_ranges (rx full_name) [v] of
           Inl e \<Rightarrow> Inl e
         | Inr cov \<Rightarrow> Inr (sorted_set cov))
      else Inr (sorted_set [v]))"

text \<open>\<^verbatim>\<open>[int(b) for b in blocks]\<close>\<close>

fun ints_of :: "string list \<Rightarrow> py_error + int list" where
  "ints_of [] = Inr []"
| "ints_of (b # bs) =
     (case py_int b of
        None \<Rightarrow> Inl ValueError
      | Some i \<Rightarrow> (case ints_of bs of Inl e \<Rightarrow> Inl e | Inr r \<Rightarrow> Inr (i # r)))"

text \<open>The loop of the branch \<^verbatim>\<open>block_policy == "all"\<close>.\<close>

fun all_loop ::
  "bool \<Rightarrow> (string \<Rightarrow> re_match list) \<Rightarrow> string \<Rightarrow> int list \<Rightarrow> int list list
     \<Rightarrow> py_error + int list list" where
  "all_loop mr rx nm [] result = Inr result"
| "all_loop mr rx nm (bval # bs) result =
     (case coverage_for_block mr rx nm bval of
        Inl e \<Rightarrow> Inl e
      | Inr c \<Rightarrow> all_loop mr rx nm bs (if c \<noteq> [] then result @ [c] else result))"

text \<open>The loop of the last branch, \<^verbatim>\<open>multi-block-advanced\<close>.\<close>

fun advanced_loop ::
  "bool \<Rightarrow> (string \<Rightarrow> re_match list) \<Rightarrow> string \<Rightarrow> int list \<Rightarrow> int list list
     \<Rightarrow> py_error + int list list" where
  "advanced_loop mr rx nm [] result = Inr result"
| "advanced_loop mr rx nm (bval # bs) result =
     (case coverage_for_block mr rx nm bval of
        Inl e \<Rightarrow> Inl e
      | Inr c \<Rightarrow>
          advanced_loop mr rx nm bs (if c \<noteq> [] then result @ [c] else result))"

definition parse_coverage_list ::
  "item \<Rightarrow> block_policy \<Rightarrow> bool \<Rightarrow> (string \<Rightarrow> re_match list) \<Rightarrow> py_error + int list list" where
  "parse_coverage_list it bp mr rx =
     (let nm = name it; blocks = digit_runs nm
      in if blocks = [] then Inr []
         else
           (case ints_of blocks of
              Inl e \<Rightarrow> Inl e
            | Inr blocks_i \<Rightarrow>
                (case bp of
                   First \<Rightarrow>
                     (case blocks_i of
                        [] \<Rightarrow> Inl IndexError
                      | v # _ \<Rightarrow>
                          (case coverage_for_block mr rx nm v of
                             Inl e \<Rightarrow> Inl e
                           | Inr c \<Rightarrow> Inr (if c \<noteq> [] then [c] else [])))
                 | Largest \<Rightarrow>
                     (case py_max blocks_i of
                        Inl e \<Rightarrow> Inl e
                      | Inr v \<Rightarrow>
                          (case coverage_for_block mr rx nm v of
                             Inl e \<Rightarrow> Inl e
                           | Inr c \<Rightarrow> Inr (if c \<noteq> [] then [c] else [])))
                 | All \<Rightarrow> all_loop mr rx nm blocks_i []
                 | MultiBlockAdvanced \<Rightarrow> advanced_loop mr rx nm blocks_i [])))"

subsection \<open>Grouping\<close>

definition item_passes_filter :: "item \<Rightarrow> (string \<Rightarrow> bool) option \<Rightarrow> string option \<Rightarrow> bool" where
  "item_passes_filter it pat subf =
     (let nm = name it
      in if (case pat of None \<Rightarrow> False | Some search \<Rightarrow> \<not> search nm) then False
         else if (case subf of None \<Rightarrow> False | Some sb \<Rightarrow> sb \<noteq> [] \<and> py_find nm sb = None)
         then False
         else True)"

fun compute_group_label_for_picks :: "pick list \<Rightarrow> string" where
  "compute_group_label_for_picks [] = ''<no-numeric>''"
| "compute_group_label_for_picks (p # ps) =
     (case coverage p of
        [] \<Rightarrow> compute_group_label_for_picks ps
      | v # _ \<Rightarrow>
          (let nm = name (item p);
               zval = zfill (py_str v) (length (py_str v));
               idx = (case py_find nm zval of None \<Rightarrow> py_find nm (py_str v) | Some i \<Rightarrow> Some i)
           in case idx of
                None \<Rightarrow> ''<no-numeric>''
              | Some i \<Rightarrow>
                  (let pre = sub_trailing_digits (take i nm)
                   in if pre \<noteq> [] then pre else ''<no-numeric>'')))"

fun compute_group_label_for_flat :: "(string \<times> item \<times> int list) list \<Rightarrow> string" where
  "compute_group_label_for_flat [] = ''<no-numeric>''"
| "compute_group_label_for_flat ((dk, it, cov) # cs) =
     (case cov of
        [] \<Rightarrow> compute_group_label_for_flat cs
      | v # _ \<Rightarrow>
          (let nm = name it;
               zval = zfill (py_str v) (length (py_str v));
               idx = (case py_find nm zval of None \<Rightarrow> py_find nm (py_str v) | Some i \<Rightarrow> Some i)
           in case idx of
                None \<Rightarrow> ''<no-numeric>''
              | Some i \<Rightarrow>
                  (let pre = sub_trailing_digits (take i nm)
                   in if pre \<noteq> [] then pre else ''<no-numeric>'')))"

text \<open>
  The loop \<^verbatim>\<open>for p in picks\<close> of \<^verbatim>\<open>build_subgroups_in_dir\<close>, for a threshold \<open>t\<close> that is
  set; the state is \<^verbatim>\<open>groups\<close>, \<^verbatim>\<open>lastv\<close>, \<^verbatim>\<open>citems\<close> and \<^verbatim>\<open>idx\<close>. \<^verbatim>\<open>p["coverage"][0]\<close>
  raises on an empty coverage.
\<close>

fun subgroups_loop ::
  "string \<Rightarrow> int \<Rightarrow> artifact_type \<Rightarrow> pick list \<Rightarrow> group list \<Rightarrow> int option \<Rightarrow> pick list \<Rightarrow> nat
     \<Rightarrow> py_error + (group list \<times> pick list \<times> nat)" where
  "subgroups_loop dkey t at [] groups lastv citems idx = Inr (groups, citems, idx)"
| "subgroups_loop dkey t at (p # ps) groups lastv citems idx =
     (case coverage p of
        [] \<Rightarrow> Inl IndexError
      | mv # _ \<Rightarrow>
          (case lastv of
             None \<Rightarrow> subgroups_loop dkey t at ps groups (Some mv) [p] idx
           | Some lv \<Rightarrow>
               if mv - lv > t
               then subgroups_loop dkey t at ps
                      (groups @
                        [\<lparr>group_id = dkey @ ''__group'' @ py_str (int idx),
                          directory = Some dkey,
                          label = compute_group_label_for_picks citems,
                          artifact_type = at,
                          picks = citems\<rparr>])
                      (Some mv) [p] (idx + 1)
               else subgroups_loop dkey t at ps groups (Some mv) (citems @ [p]) idx))"

text \<open>
  \<^verbatim>\<open>if not threshold\<close> holds for \<^verbatim>\<open>None\<close> and for 0. In the other case the threshold is
  an integer, so that the branch \<open>None\<close> of the inner case is never taken.
\<close>

definition build_subgroups_in_dir ::
  "string \<Rightarrow> pick list \<Rightarrow> int option \<Rightarrow> artifact_type \<Rightarrow> py_error + group list" where
  "build_subgroups_in_dir dkey pks threshold at =
     (if \<not> truthy threshold
      then Inr [\<lparr>group_id = dkey @ ''__group0'',
                 directory = Some dkey,
                 label = compute_group_label_for_picks pks,
                 artifact_type = at,
                 picks = pks\<rparr>]
      else
        (case threshold of
           None \<Rightarrow> Inr []
         | Some t \<Rightarrow>
             (case subgroups_loop dkey t at pks [] None [] 0 of
                Inl e \<Rightarrow> Inl e
              | Inr (groups, citems, idx) \<Rightarrow>
                  Inr (if citems \<noteq> []
                       then groups @
                         [\<lparr>group_id = dkey @ ''__group'' @ py_str (int idx),
                           directory = Some dkey,
                           label = compute_group_label_for_picks citems,
                           artifact_type = at,
                           picks = citems\<rparr>]
                       else groups))))"

text \<open>
  The loop of \<^verbatim>\<open>build_groups_from_flat\<close>; here the test is
  \<^verbatim>\<open>threshold and (mv - lastv) > threshold\<close>.
\<close>

fun flat_loop ::
  "int option \<Rightarrow> artifact_type \<Rightarrow> (string \<times> item \<times> int list) list \<Rightarrow> group list \<Rightarrow> int option
     \<Rightarrow> (string \<times> item \<times> int list) list \<Rightarrow> nat
     \<Rightarrow> py_error + (group list \<times> (string \<times> item \<times> int list) list \<times> nat)" where
  "flat_loop threshold at [] groups lastv citems idx = Inr (groups, citems, idx)"
| "flat_loop threshold at ((dkey, it, cov) # fs) groups lastv citems idx =
     (case cov of
        [] \<Rightarrow> Inl IndexError
      | mv # _ \<Rightarrow>
          (case lastv of
             None \<Rightarrow> flat_loop threshold at fs groups (Some mv) [(dkey, it, cov)] idx
           | Some lv \<Rightarrow>
               if truthy threshold \<and> (case threshold of None \<Rightarrow> False | Some t \<Rightarrow> mv - lv > t)
               then flat_loop threshold at fs
                      (groups @
                        [\<lparr>group_id = ''crossdir_'' @ py_str (int idx),
                          directory = None,
                          label = compute_group_label_for_flat citems,
                          artifact_type = at,
                          picks = map (\<lambda>xx. \<lparr>item = fst (snd xx), coverage = snd (snd xx)\<rparr>) citems\<rparr>])
                      (Some mv) [(dkey, it, cov)] (idx + 1)
               else flat_loop threshold at fs groups (Some mv) (citems @ [(dkey, it, cov)]) idx))"

text \<open>
  \<^verbatim>\<open>list.sort\<close> is stable, as \<open>sort_key\<close> is; the key reads \<^verbatim>\<open>coverage[0]\<close>, which raises
  on an empty coverage.
\<close>

definition build_groups_from_flat ::
  "(string \<times> item \<times> int list) list \<Rightarrow> int option \<Rightarrow> artifact_type \<Rightarrow> py_error + group list" where
  "build_groups_from_flat flat threshold at =
     (if \<exists>x \<in> set flat. snd (snd x) = [] then Inl IndexError
      else
        (case flat_loop threshold at
                (sort_key (\<lambda>x. (hd (snd (snd x)), name (fst (snd x)))) flat) [] None [] 0 of
           Inl e \<Rightarrow> Inl e
         | Inr (groups, citems, idx) \<Rightarrow>
             Inr (if citems \<noteq> []
                  then groups @
                    [\<lparr>group_id = ''crossdir_'' @ py_str (int idx),
                      directory = None,
                      label = compute_group_label_for_flat citems,
                      artifact_type = at,
                      picks = map (\<lambda>xx. \<lparr>item = fst (snd xx), coverage = snd (snd xx)\<rparr>) citems\<rparr>]
                  else groups)))"

text \<open>The inner loops of \<^verbatim>\<open>group_items\<close>: the items of one directory.\<close>

fun flat_of_items ::
  "args \<Rightarrow> string \<Rightarrow> item list \<Rightarrow> (string \<times> item \<times> int list) list
     \<Rightarrow> py_error + (string \<times> item \<times> int list) list" where
  "flat_of_items a dkey [] flat = Inr flat"
| "flat_of_items a dkey (it # its) flat =
     (if item_passes_filter it (pattern a) (filter_arg a)
      then
        (case parse_coverage_list it (block_policy a) (multi_range a) (range_regex a) of
           Inl e \<Rightarrow> Inl e
         | Inr coverage_list \<Rightarrow>
             flat_of_items a dkey its (flat @ map (\<lambda>cov. (dkey, it, cov)) coverage_list))
      else flat_of_items a dkey its flat)"

fun picks_of_items :: "args \<Rightarrow> item list \<Rightarrow> pick list \<Rightarrow> py_error + pick list" where
  "picks_of_items a [] pks = Inr pks"
| "picks_of_items a (it # its) pks =
     (if item_passes_filter it (pattern a) (filter_arg a)
      then
        (case parse_coverage_list it (block_policy a) (multi_range a) (range_regex a) of
           Inl e \<Rightarrow> Inl e
         | Inr cov_list \<Rightarrow>
             picks_of_items a its (pks @ map (\<lambda>c. \<lparr>item = it, coverage = c\<rparr>) cov_list))
      else picks_of_items a its pks)"

text \<open>
  The outer loops, over the directories of the collection. The collection \<^verbatim>\<open>coll\<close>, a
  dictionary from a directory to its items, is the list of its entries in insertion order.
\<close>

fun flat_of_dirs ::
  "args \<Rightarrow> (string \<times> item list) list \<Rightarrow> (string \<times> item \<times> int list) list
     \<Rightarrow> py_error + (string \<times> item \<times> int list) list" where
  "flat_of_dirs a [] flat = Inr flat"
| "flat_of_dirs a ((dkey, its) # ds) flat =
     (case flat_of_items a dkey its flat of
        Inl e \<Rightarrow> Inl e
      | Inr flat' \<Rightarrow> flat_of_dirs a ds flat')"

fun groups_of_dirs ::
  "args \<Rightarrow> artifact_type \<Rightarrow> (string \<times> item list) list \<Rightarrow> group list \<Rightarrow> py_error + group list" where
  "groups_of_dirs a at [] out = Inr out"
| "groups_of_dirs a at ((dkey, its) # ds) out =
     (case picks_of_items a its [] of
        Inl e \<Rightarrow> Inl e
      | Inr pks \<Rightarrow>
          if pks = [] then groups_of_dirs a at ds out
          else if \<exists>p \<in> set pks. coverage p = [] then Inl IndexError
          else
            (case build_subgroups_in_dir dkey
                    (sort_key (\<lambda>x. (hd (coverage x), name (item x))) pks)
                    (group_threshold a) at of
               Inl e \<Rightarrow> Inl e
             | Inr gs \<Rightarrow> groups_of_dirs a at ds (out @ gs)))"

definition group_items ::
  "(string \<times> item list) list \<Rightarrow> args \<Rightarrow> artifact_type \<Rightarrow> py_error + group list" where
  "group_items coll a at =
     (if cross_dir_grouping a
      then
        (case flat_of_dirs a coll [] of
           Inl e \<Rightarrow> Inl e
         | Inr flat \<Rightarrow> build_groups_from_flat flat (group_threshold a) at)
      else groups_of_dirs a at coll [])"

subsection \<open>Missing detection\<close>

text \<open>
  An entry of \<^verbatim>\<open>real_cov_items\<close>, a missing item, a segment and the result for a group. The
  boundary type and the reason are the strings of the program. The statistic
  \<^verbatim>\<open>approx_missing_bytes\<close> is a floating-point number and is left out.
\<close>

record real_cov_item =
  rc_val :: int
  rc_prefix :: string
  rc_suffix :: string
  rc_is_dir :: bool
  rc_size :: nat

record missing_item =
  val :: int
  padded :: string
  prefix :: string
  suffix :: string
  reason :: string

record segment =
  start_val :: int
  end_val :: int
  count :: nat
  boundary_type :: string
  missing_items :: "missing_item list"

record stats =
  num_missing :: nat
  num_real :: nat
  num_segments :: nat

record group_result =
  group_info :: group
  segments :: "segment list"
  stats :: stats

definition guess_prefix_suffix :: "item \<Rightarrow> int \<Rightarrow> string \<times> string" where
  "guess_prefix_suffix it example_val =
     (let nm = name it;
          zstr = zfill (py_str example_val) (length (py_str example_val))
      in case py_find nm zstr of
           None \<Rightarrow>
             (case py_find nm (py_str example_val) of
                None \<Rightarrow> (''???_'', ''.xxx'')
              | Some idx2 \<Rightarrow> (take idx2 nm, drop (idx2 + length (py_str example_val)) nm))
         | Some idx \<Rightarrow> (take idx nm, drop (idx + length zstr) nm))"

text \<open>
  The loop \<^verbatim>\<open>while v <= ed\<close> of \<^verbatim>\<open>build_missing_segment\<close>, with the list \<^verbatim>\<open>items\<close> built
  so far. It returns \<open>None\<close> when the loop does not end.
\<close>

partial_function (option) missing_loop ::
  "int \<Rightarrow> int \<Rightarrow> int \<Rightarrow> nat \<Rightarrow> string \<Rightarrow> bool \<Rightarrow> int option \<Rightarrow> missing_item list
     \<Rightarrow> missing_item list option" where
  "missing_loop v ed inc pad_len btype expl mb items =
     (if v \<le> ed
      then missing_loop (v + inc) ed inc pad_len btype expl mb
             (items @
               [\<lparr>val = v,
                 padded = zfill (py_str v) pad_len,
                 prefix = [],
                 suffix = [],
                 reason = (if expl \<and> btype \<in> set [''leading'', ''trailing''] \<and> truthy mb
                           then btype @ '' (possible boundary)'' else btype)\<rparr>])
      else Some items)"

declare missing_loop.simps [code]

definition build_missing_segment ::
  "int \<Rightarrow> int \<Rightarrow> string \<Rightarrow> bool \<Rightarrow> int option \<Rightarrow> int \<Rightarrow> segment option" where
  "build_missing_segment st ed btype expl mb inc =
     (if ed < st
      then Some \<lparr>start_val = st, end_val = ed, count = 0, boundary_type = btype,
                 missing_items = []\<rparr>
      else
        (case missing_loop st ed inc (length (py_str ed)) btype expl mb [] of
           None \<Rightarrow> None
         | Some items \<Rightarrow>
             Some \<lparr>start_val = st, end_val = ed, count = length items, boundary_type = btype,
                   missing_items = items\<rparr>))"

text \<open>
  The loop of \<^verbatim>\<open>find_closest_prefix_suffix\<close>; \<open>best_diff = None\<close> is \<^verbatim>\<open>float("inf")\<close>.
\<close>

fun closest_loop ::
  "int \<Rightarrow> real_cov_item list \<Rightarrow> real_cov_item option \<Rightarrow> int option \<Rightarrow> real_cov_item option" where
  "closest_loop v [] best best_diff = best"
| "closest_loop v (rc # rcs) best best_diff =
     (let diff = \<bar>rc_val rc - v\<bar>
      in if (case best_diff of None \<Rightarrow> True | Some bd \<Rightarrow> diff < bd)
         then closest_loop v rcs (Some rc) (Some diff)
         else closest_loop v rcs best best_diff)"

definition find_closest_prefix_suffix :: "int \<Rightarrow> real_cov_item list \<Rightarrow> string \<times> string" where
  "find_closest_prefix_suffix v real_cov =
     (case closest_loop v real_cov None None of
        Some best \<Rightarrow> (rc_prefix best, rc_suffix best)
      | None \<Rightarrow> (''???_'', ''.xxx''))"

text \<open>
  The loop \<^verbatim>\<open>for p in picks\<close> of \<^verbatim>\<open>detect_breaks_in_group\<close>; the state is \<^verbatim>\<open>all_ints\<close>,
  \<^verbatim>\<open>real_cov_items\<close>, \<^verbatim>\<open>total_size\<close> and \<^verbatim>\<open>real_count\<close>.
\<close>

fun scan_picks ::
  "artifact_type \<Rightarrow> pick list \<Rightarrow> int list \<Rightarrow> real_cov_item list \<Rightarrow> nat \<Rightarrow> nat
     \<Rightarrow> py_error + (int list \<times> real_cov_item list \<times> nat \<times> nat)" where
  "scan_picks at [] all_ints real_cov_items total_size real_count =
     Inr (all_ints, real_cov_items, total_size, real_count)"
| "scan_picks at (p # ps) all_ints real_cov_items total_size real_count =
     (let it = item p;
          total_size' = (if at = Files then total_size + fsize it else total_size);
          real_count' = (if at = Files then real_count + 1 else real_count)
      in case coverage p of
           [] \<Rightarrow> Inl IndexError
         | main_val # _ \<Rightarrow>
             (let ps_pair = guess_prefix_suffix it main_val
              in scan_picks at ps (all_ints @ coverage p)
                   (real_cov_items @
                      map (\<lambda>v. \<lparr>rc_val = v, rc_prefix = fst ps_pair, rc_suffix = snd ps_pair,
                                  rc_is_dir = is_dir it, rc_size = fsize it\<rparr>) (coverage p))
                   total_size' real_count'))"

text \<open>\<^verbatim>\<open>if seg["count"] > 0: segments.append(seg)\<close>, for a segment that may not be built.\<close>

definition append_segment :: "segment list \<Rightarrow> segment option \<Rightarrow> segment list option" where
  "append_segment segs r =
     (case r of None \<Rightarrow> None | Some seg \<Rightarrow> Some (if count seg > 0 then segs @ [seg] else segs))"

text \<open>The loop \<^verbatim>\<open>for i in range(len(sorted_ints) - 1)\<close> over the adjacent pairs.\<close>

fun internal_loop :: "int list \<Rightarrow> bool \<Rightarrow> int option \<Rightarrow> int \<Rightarrow> segment list \<Rightarrow> segment list option" where
  "internal_loop (cval # nval # rest) expl mb inc segs =
     (if nval - cval > inc
      then
        (case append_segment segs
                (build_missing_segment (cval + inc) (nval - 1) ''internal'' expl mb inc) of
           None \<Rightarrow> None
         | Some segs' \<Rightarrow> internal_loop (nval # rest) expl mb inc segs')
      else internal_loop (nval # rest) expl mb inc segs)"
| "internal_loop [x] expl mb inc segs = Some segs"
| "internal_loop [] expl mb inc segs = Some segs"

text \<open>The two loops that fill in the prefix and suffix of every missing item.\<close>

definition fill_prefix :: "real_cov_item list \<Rightarrow> segment list \<Rightarrow> segment list" where
  "fill_prefix real_cov_items segs =
     map (\<lambda>seg. seg\<lparr>missing_items :=
                       map (\<lambda>mi. (let near = find_closest_prefix_suffix (val mi) real_cov_items
                                   in mi\<lparr>prefix := fst near, suffix := snd near\<rparr>))
                           (missing_items seg)\<rparr>) segs"

definition empty_result :: "group \<Rightarrow> group_result" where
  "empty_result g =
     \<lparr>group_info = g, segments = [],
      stats = \<lparr>num_missing = 0, num_real = 0, num_segments = 0\<rparr>\<rparr>"

definition detect_breaks_in_group ::
  "group \<Rightarrow> int option \<Rightarrow> int option \<Rightarrow> int option \<Rightarrow> int \<Rightarrow> bool
     \<Rightarrow> (py_error + group_result) option" where
  "detect_breaks_in_group g sn en mb inc expl =
     (if picks g = [] then Some (Inr (empty_result g))
      else
        (case scan_picks (artifact_type g) (picks g) [] [] 0 0 of
           Inl e \<Rightarrow> Some (Inl e)
         | Inr (all_ints, real_cov_items, total_size, real_count) \<Rightarrow>
             (let sorted_ints = sorted_set all_ints
              in if sorted_ints = [] then Some (Inr (empty_result g))
                 else
                   (let actual_min = hd sorted_ints;
                        actual_max = last sorted_ints;
                        seq_start =
                          (case sn of
                             Some s \<Rightarrow> s
                           | None \<Rightarrow>
                               (case mb of
                                  None \<Rightarrow> actual_min
                                | Some m \<Rightarrow>
                                    if m = 0 then actual_min else (actual_min div m) * m));
                        seq_end =
                          (case en of
                             Some e \<Rightarrow> e
                           | None \<Rightarrow>
                               (case mb of
                                  None \<Rightarrow> actual_max
                                | Some m \<Rightarrow>
                                    if m = 0 then actual_max
                                    else ((actual_max div m) + 1) * m - 1));
                        leading =
                          (if seq_start < actual_min
                           then append_segment []
                                  (build_missing_segment seq_start (actual_min - inc)
                                     ''leading'' expl mb inc)
                           else Some [])
                    in case leading of
                         None \<Rightarrow> None
                       | Some segs1 \<Rightarrow>
                           (case internal_loop sorted_ints expl mb inc segs1 of
                              None \<Rightarrow> None
                            | Some segs2 \<Rightarrow>
                                (case (if seq_end > actual_max
                                       then append_segment segs2
                                              (build_missing_segment (actual_max + inc) seq_end
                                                 ''trailing'' expl mb inc)
                                       else Some segs2) of
                                   None \<Rightarrow> None
                                 | Some segs3 \<Rightarrow>
                                     Some (Inr
                                       \<lparr>group_info = g,
                                        segments = fill_prefix real_cov_items segs3,
                                        stats =
                                          \<lparr>num_missing = sum_list (map count segs3),
                                           num_real = (if artifact_type g = Files then real_count
                                                       else length sorted_ints),
                                           num_segments = length segs3\<rparr>\<rparr>)))))))"

subsection \<open>The main loop and the output of one missing item\<close>

text \<open>
  The loop of \<^verbatim>\<open>main\<close> that replaces every group by its result, and the part of \<^verbatim>\<open>main\<close>
  for one kind of artifact: grouping, then detection in every group.
\<close>

fun detect_all :: "args \<Rightarrow> group list \<Rightarrow> (py_error + group_result list) option" where
  "detect_all a [] = Some (Inr [])"
| "detect_all a (g # gs) =
     (case detect_breaks_in_group g (start_num a) (end_num a) (mod_boundary a) (increment a)
             (explain a) of
        None \<Rightarrow> None
      | Some (Inl e) \<Rightarrow> Some (Inl e)
      | Some (Inr br) \<Rightarrow>
          (case detect_all a gs of
             None \<Rightarrow> None
           | Some (Inl e) \<Rightarrow> Some (Inl e)
           | Some (Inr brs) \<Rightarrow> Some (Inr (br # brs))))"

definition analyze ::
  "(string \<times> item list) list \<Rightarrow> args \<Rightarrow> artifact_type \<Rightarrow> (py_error + group_result list) option" where
  "analyze coll a at =
     (case group_items coll a at of
        Inl e \<Rightarrow> Some (Inl e)
      | Inr gf \<Rightarrow> detect_all a gf)"

datatype show_mode = Filename | Padded | Number | Significant

definition reconstruct :: "missing_item \<Rightarrow> show_mode \<Rightarrow> string" where
  "reconstruct mi sm =
     (case sm of
        Filename \<Rightarrow> prefix mi @ padded mi @ suffix mi
      | Padded \<Rightarrow> padded mi
      | Number \<Rightarrow> py_str (val mi)
      | Significant \<Rightarrow> drop (length (padded mi) - 3) (padded mi))"

section \<open>Specification-level notions\<close>

text \<open>
  The functions of this section are not code of the program: they say what the loops
  compute, or they follow the words of the specification.
\<close>

text \<open>The values \<open>v, v + inc, v + 2 inc, ...\<close> up to \<open>ed\<close>, for a step of at least one.\<close>

function upto_step :: "int \<Rightarrow> int \<Rightarrow> int \<Rightarrow> int list" where
  "upto_step v ed inc = (if 1 \<le> inc \<and> v \<le> ed then v # upto_step (v + inc) ed inc else [])"
  by pat_completeness auto
termination
  by (relation "measure (\<lambda>(v, ed, inc). nat (ed - v + 1))") auto

declare upto_step.simps [simp del]

text \<open>The entry that one round of the loop of \<^verbatim>\<open>build_missing_segment\<close> appends.\<close>

definition missing_entry :: "nat \<Rightarrow> string \<Rightarrow> bool \<Rightarrow> int option \<Rightarrow> int \<Rightarrow> missing_item" where
  "missing_entry pad_len btype expl mb v =
     \<lparr>val = v, padded = zfill (py_str v) pad_len, prefix = [], suffix = [],
      reason = (if expl \<and> btype \<in> set [''leading'', ''trailing''] \<and> truthy mb
                then btype @ '' (possible boundary)'' else btype)\<rparr>"

text \<open>The segment that \<^verbatim>\<open>build_missing_segment\<close> returns when the step is at least one.\<close>

definition segment_of :: "int \<Rightarrow> int \<Rightarrow> string \<Rightarrow> bool \<Rightarrow> int option \<Rightarrow> int \<Rightarrow> segment" where
  "segment_of st ed btype expl mb inc =
     \<lparr>start_val = st, end_val = ed, count = length (upto_step st ed inc), boundary_type = btype,
      missing_items = map (missing_entry (length (py_str ed)) btype expl mb) (upto_step st ed inc)\<rparr>"

text \<open>The list \<^verbatim>\<open>real_cov_items\<close> of a group, and its sorted list of observed values.\<close>

definition real_cov_of :: "pick list \<Rightarrow> real_cov_item list" where
  "real_cov_of ps =
     concat (map (\<lambda>p. map (\<lambda>v. \<lparr>rc_val = v,
                                  rc_prefix = fst (guess_prefix_suffix (item p) (hd (coverage p))),
                                  rc_suffix = snd (guess_prefix_suffix (item p) (hd (coverage p))),
                                  rc_is_dir = is_dir (item p), rc_size = fsize (item p)\<rparr>)
                         (coverage p)) ps)"

definition observed :: "group \<Rightarrow> int list" where
  "observed g = sorted_set (concat (map coverage (picks g)))"

text \<open>The bounds \<^verbatim>\<open>seq_start\<close> and \<^verbatim>\<open>seq_end\<close>, and the segments before the prefixes are filled in.\<close>

definition seq_start_of :: "int option \<Rightarrow> int option \<Rightarrow> int \<Rightarrow> int" where
  "seq_start_of sn mb actual_min =
     (case sn of Some s \<Rightarrow> s
      | None \<Rightarrow> (case mb of None \<Rightarrow> actual_min
                 | Some m \<Rightarrow> if m = 0 then actual_min else (actual_min div m) * m))"

definition seq_end_of :: "int option \<Rightarrow> int option \<Rightarrow> int \<Rightarrow> int" where
  "seq_end_of en mb actual_max =
     (case en of Some e \<Rightarrow> e
      | None \<Rightarrow> (case mb of None \<Rightarrow> actual_max
                 | Some m \<Rightarrow> if m = 0 then actual_max else ((actual_max div m) + 1) * m - 1))"

definition internal_segments :: "int list \<Rightarrow> bool \<Rightarrow> int option \<Rightarrow> int \<Rightarrow> segment list" where
  "internal_segments xs expl mb inc =
     map (\<lambda>(c, n). segment_of (c + inc) (n - 1) ''internal'' expl mb inc)
       (filter (\<lambda>(c, n). n - c > inc) (zip xs (tl xs)))"

definition raw_segments ::
  "int list \<Rightarrow> int option \<Rightarrow> int option \<Rightarrow> int option \<Rightarrow> int \<Rightarrow> bool \<Rightarrow> segment list" where
  "raw_segments xs sn en mb inc expl =
     (if seq_start_of sn mb (hd xs) < hd xs \<and> seq_start_of sn mb (hd xs) \<le> hd xs - inc
      then [segment_of (seq_start_of sn mb (hd xs)) (hd xs - inc) ''leading'' expl mb inc] else [])
     @ internal_segments xs expl mb inc
     @ (if seq_end_of en mb (last xs) > last xs \<and> last xs + inc \<le> seq_end_of en mb (last xs)
        then [segment_of (last xs + inc) (seq_end_of en mb (last xs)) ''trailing'' expl mb inc]
        else [])"

text \<open>
  The bounds of a segment, and the segments of a group as the specification words them:
  the expected bounds, the leading run, the internal runs, the trailing run, and the runs
  that end before they start taken out. \<open>V\<close> is the ascending list of the observed values.
\<close>

definition seg_bounds :: "segment \<Rightarrow> int \<times> int \<times> string" where
  "seg_bounds s = (start_val s, end_val s, boundary_type s)"

definition expected_start :: "int option \<Rightarrow> int option \<Rightarrow> int \<Rightarrow> int" where
  "expected_start sn mb actual_min =
     (case sn of Some s \<Rightarrow> s
      | None \<Rightarrow> (case mb of None \<Rightarrow> actual_min | Some m \<Rightarrow> actual_min - actual_min mod m))"

definition expected_end :: "int option \<Rightarrow> int option \<Rightarrow> int \<Rightarrow> int" where
  "expected_end en mb actual_max =
     (case en of Some e \<Rightarrow> e
      | None \<Rightarrow> (case mb of None \<Rightarrow> actual_max
                 | Some m \<Rightarrow> actual_max - actual_max mod m + m - 1))"

definition spec_runs ::
  "int list \<Rightarrow> int option \<Rightarrow> int option \<Rightarrow> int option \<Rightarrow> int \<Rightarrow> (int \<times> int \<times> string) list" where
  "spec_runs V sn en mb inc =
     (let actual_min = Min (set V); actual_max = Max (set V);
          start = expected_start sn mb actual_min;
          end = expected_end en mb actual_max
      in (if start < actual_min then [(start, actual_min - inc, ''leading'')] else [])
         @ map (\<lambda>(cur, nxt). (cur + inc, nxt - 1, ''internal''))
             (filter (\<lambda>(cur, nxt). nxt - cur > inc) (zip V (tl V)))
         @ (if end > actual_max then [(actual_max + inc, end, ''trailing'')] else []))"

definition spec_segments ::
  "int list \<Rightarrow> int option \<Rightarrow> int option \<Rightarrow> int option \<Rightarrow> int \<Rightarrow> (int \<times> int \<times> string) list" where
  "spec_segments V sn en mb inc =
     (if V = [] then [] else filter (\<lambda>(s, e, k). \<not> e < s) (spec_runs V sn en mb inc))"

text \<open>The internal gaps of an ascending list of observed values.\<close>

definition internal_gaps :: "int list \<Rightarrow> int \<Rightarrow> (int \<times> int \<times> string) list" where
  "internal_gaps V inc =
     map (\<lambda>(cur, nxt). (cur + inc, nxt - 1, ''internal''))
       (filter (\<lambda>(cur, nxt). nxt - cur > inc) (zip V (tl V)))"

text \<open>The integers that the digit runs of a name denote.\<close>

definition block_values :: "string \<Rightarrow> int list" where
  "block_values nm = map (\<lambda>b. int (dec_val b)) (digit_runs nm)"

text \<open>
  A match that the loop of \<^verbatim>\<open>coverage_for_block\<close> can process: it is skipped, or its first
  two groups are integer literals.
\<close>

fun numeric_match :: "re_match \<Rightarrow> bool" where
  "numeric_match (Whole w) = True"
| "numeric_match (Groups gs) = (length gs < 2 \<or> (py_int (gs ! 0) \<noteq> None \<and> py_int (gs ! 1) \<noteq> None))"

text \<open>The integers that one match contributes: all of \<open>[low, high]\<close>.\<close>

fun match_range :: "re_match \<Rightarrow> int set" where
  "match_range (Whole w) = {}"
| "match_range (Groups gs) =
     (if 2 \<le> length gs
      then (case (py_int (gs ! 0), py_int (gs ! 1)) of
              (Some a, Some b) \<Rightarrow> {min a b .. max a b}
            | _ \<Rightarrow> {})
      else {})"

text \<open>A match that the loop of \<^verbatim>\<open>coverage_for_block\<close> passes over: a string, or a short tuple.\<close>

fun few_groups :: "re_match \<Rightarrow> bool" where
  "few_groups (Whole w) = True"
| "few_groups (Groups gs) = (length gs < 2)"

text \<open>The coverage sets of the picks of every group of a result.\<close>

definition result_coverages :: "group_result list \<Rightarrow> int list list list" where
  "result_coverages rs = map (\<lambda>r. map coverage (picks (group_info r))) rs"

text \<open>
  What is shown of a segment: its bounds, count and kind, and the names of its missing
  items as \<^verbatim>\<open>reconstruct\<close> gives them in the mode \<open>filename\<close>.
\<close>

definition segment_report :: "segment \<Rightarrow> int \<times> int \<times> nat \<times> string \<times> string list" where
  "segment_report s =
     (start_val s, end_val s, count s, boundary_type s,
      map (\<lambda>mi. reconstruct mi Filename) (missing_items s))"

definition result_reports ::
  "group_result list \<Rightarrow> (int \<times> int \<times> nat \<times> string \<times> string list) list list" where
  "result_reports rs = map (\<lambda>r. map segment_report (segments r)) rs"

text \<open>
  The representative value of a pick and the key of the sort of \<^verbatim>\<open>group_items\<close>; the
  neighbours in a list; a run of picks without a gap above the threshold; and a sequence
  of runs that is split exactly at the gaps above the threshold: no run is empty, no gap
  inside a run exceeds the threshold, and from the last pick of a run to the first pick
  of the next run the gap does exceed it.
\<close>

definition rep :: "pick \<Rightarrow> int" where
  "rep p = hd (coverage p)"

definition pick_key :: "pick \<Rightarrow> int \<times> string" where
  "pick_key p = (hd (coverage p), name (item p))"

definition adjacent :: "'a list \<Rightarrow> ('a \<times> 'a) list" where
  "adjacent xs = zip xs (tl xs)"

definition within :: "int \<Rightarrow> pick list \<Rightarrow> bool" where
  "within t r = list_all (\<lambda>(p, q). rep q - rep p \<le> t) (adjacent r)"

definition split_ok :: "int \<Rightarrow> pick list list \<Rightarrow> bool" where
  "split_ok t rs =
     (list_all (\<lambda>r. r \<noteq> [] \<and> within t r) rs \<and>
      list_all (\<lambda>(r, s). rep (hd s) - rep (last r) > t) (adjacent rs))"

text \<open>The key of the sort of \<^verbatim>\<open>build_groups_from_flat\<close>, and the pick of an entry of \<^verbatim>\<open>flat\<close>.\<close>

definition flat_key :: "string \<times> item \<times> int list \<Rightarrow> int \<times> string" where
  "flat_key x = (hd (snd (snd x)), name (fst (snd x)))"

definition pick_of_flat :: "string \<times> item \<times> int list \<Rightarrow> pick" where
  "pick_of_flat xx = \<lparr>item = fst (snd xx), coverage = snd (snd xx)\<rparr>"

text \<open>
  No digit run of a name has more digits than \<^verbatim>\<open>int()\<close> converts; and the items from
  which coverage can be extracted: their digit runs are within the limit and the range
  pattern, when it is used, matches integers only in their names.
\<close>

definition runs_in_limit :: "string \<Rightarrow> bool" where
  "runs_in_limit nm = list_all (\<lambda>b. length b \<le> max_str_digits) (digit_runs nm)"

definition extractable :: "args \<Rightarrow> item list \<Rightarrow> bool" where
  "extractable a its =
     list_all (\<lambda>it. runs_in_limit (name it) \<and>
                     (multi_range a \<longrightarrow> list_all numeric_match (range_regex a (name it)))) its"



section \<open>Example inputs\<close>

text \<open>A file of 4096 bytes in the directory \<^verbatim>\<open>/data\<close>.\<close>

definition file_item :: "string \<Rightarrow> item" where
  "file_item nm = \<lparr>path = ''/data/'' @ nm, name = nm, fsize = 4096, is_dir = False\<rparr>"

text \<open>The group of the boundary scenario: the observed values are 105 and 110.\<close>

definition boundary_group :: group where
  "boundary_group =
     \<lparr>group_id = ''/data__group0'', directory = Some ''/data'', label = ''scan_'',
      artifact_type = Files,
      picks = [\<lparr>item = file_item ''scan_105.tif'', coverage = [105]\<rparr>,
               \<lparr>item = file_item ''scan_110.tif'', coverage = [110]\<rparr>]\<rparr>"

text \<open>A group of ten files with the values 1 to 10.\<close>

definition contiguous_group :: group where
  "contiguous_group =
     \<lparr>group_id = ''/data__group0'', directory = Some ''/data'', label = ''frame_'',
      artifact_type = Files,
      picks = map (\<lambda>v. \<lparr>item = file_item (''frame_'' @ py_str v @ ''.png''), coverage = [v]\<rparr>)
                [1, 2, 3, 4, 5, 6, 7, 8, 9, 10]\<rparr>"


text \<open>The item of the range-expansion scenario.\<close>

definition archive_item :: item where
  "archive_item = file_item ''archive_100-103.zip''"

text \<open>\<^verbatim>\<open>re.findall(r"(\d+)", s)\<close> as a range pattern: one group, so every match is a string.\<close>

definition one_group_regex :: "string \<Rightarrow> re_match list" where
  "one_group_regex s = map Whole (digit_runs s)"

text \<open>
  Two files with a pair of letter runs in their names, the first without a digit, the
  second with one.
\<close>

definition letters_item :: item where
  "letters_item = file_item ''abc-def.txt''"

definition letters_digit_item :: item where
  "letters_digit_item = file_item ''abc-def_7.txt''"

text \<open>The defaults of the argument parser.\<close>

definition default_args :: args where
  "default_args =
     \<lparr>pattern = None, filter_arg = None, group_threshold = None, cross_dir_grouping = False,
      block_policy = MultiBlockAdvanced, multi_range = False,
      range_regex = default_range_regex, start_num = None, end_num = None,
      mod_boundary = None, increment = 1, explain = False\<rparr>"

text \<open>The arguments with range expansion on and the one-group pattern.\<close>

definition one_group_args :: args where
  "one_group_args = default_args\<lparr>multi_range := True, range_regex := one_group_regex\<rparr>"



text \<open>The three images of the reconstruction scenario, in one directory.\<close>

definition img_collection :: "(string \<times> item list) list" where
  "img_collection =
     [(''/data'', [file_item ''img_001.png'', file_item ''img_002.png'', file_item ''img_005.png''])]"

definition first_args :: args where
  "first_args = default_args\<lparr>block_policy := First\<rparr>"

text \<open>Four picks with the representative values 1, 2, 50 and 51.\<close>

definition numbered_picks :: "pick list" where
  "numbered_picks =
     map (\<lambda>v. \<lparr>item = file_item (''take_'' @ py_str v @ ''.wav''), coverage = [v]\<rparr>) [1, 2, 50, 51]"

text \<open>The four recordings, out of order, in one directory, and a threshold of 5.\<close>

definition take_collection :: "(string \<times> item list) list" where
  "take_collection =
     [(''/data'', [file_item ''take_50.wav'', file_item ''take_1.wav'',
                   file_item ''take_51.wav'', file_item ''take_2.wav''])]"

definition threshold_args :: args where
  "threshold_args = default_args\<lparr>group_threshold := Some 5\<rparr>"

text \<open>Two configurations: a start above the end, and a negative modulus boundary.\<close>

definition reversed_bounds_args :: args where
  "reversed_bounds_args = first_args\<lparr>start_num := Some 10, end_num := Some 5\<rparr>"

definition negative_modulus_args :: args where
  "negative_modulus_args = first_args\<lparr>mod_boundary := Some (- 100)\<rparr>"


section \<open>Properties\<close>

subsection \<open>The loops of the gap detector\<close>

lemma missing_loop_eq:
  "1 \<le> inc \<Longrightarrow>
   missing_loop v ed inc pad_len btype expl mb items =
     Some (items @ map (missing_entry pad_len btype expl mb) (upto_step v ed inc))"
proof (induction v ed inc arbitrary: items rule: upto_step.induct)
  case (1 v ed inc)
  show ?case
  proof (cases "v \<le> ed")
    case True
    with "1.prems" have "missing_loop v ed inc pad_len btype expl mb items =
      missing_loop (v + inc) ed inc pad_len btype expl mb
        (items @ [missing_entry pad_len btype expl mb v])"
      by (subst missing_loop.simps) (simp add: missing_entry_def)
    also have "\<dots> = Some ((items @ [missing_entry pad_len btype expl mb v]) @
        map (missing_entry pad_len btype expl mb) (upto_step (v + inc) ed inc))"
      using "1.IH" [of "items @ [missing_entry pad_len btype expl mb v]"] True "1.prems" by simp
    also have "\<dots> = Some (items @ map (missing_entry pad_len btype expl mb) (upto_step v ed inc))"
      using True "1.prems" by (subst (2) upto_step.simps) simp
    finally show ?thesis .
  next
    case False
    then show ?thesis
      by (subst missing_loop.simps, subst upto_step.simps) simp
  qed
qed

lemma upto_step_Nil: "upto_step st ed inc = [] \<longleftrightarrow> \<not> (1 \<le> inc \<and> st \<le> ed)"
  by (subst upto_step.simps) simp

lemma build_missing_segment_eq:
  "1 \<le> inc \<Longrightarrow> build_missing_segment st ed btype expl mb inc = Some (segment_of st ed btype expl mb inc)"
  by (simp add: build_missing_segment_def segment_of_def missing_loop_eq upto_step_Nil)

lemma missing_loop_Some_imp:
  assumes "missing_loop v ed inc pad_len btype expl mb items = Some r"
  shows "inc \<le> 0 \<longrightarrow> ed < v"
  using assms
proof (rule missing_loop.raw_induct
    [where P = "\<lambda>v ed inc pl bt ex m its y. inc \<le> 0 \<longrightarrow> ed < v", rotated])
  fix f v' ed' inc' pl bt ex m its y
  assume IH: "\<And>v ed inc pl bt ex m its y. f v ed inc pl bt ex m its = Some y \<Longrightarrow> inc \<le> 0 \<longrightarrow> ed < v"
    and step: "(if v' \<le> ed'
      then f (v' + inc') ed' inc' pl bt ex m
             (its @
               [\<lparr>val = v',
                 padded = zfill (py_str v') pl,
                 prefix = [],
                 suffix = [],
                 reason = (if ex \<and> bt \<in> set [''leading'', ''trailing''] \<and> truthy m
                           then bt @ '' (possible boundary)'' else bt)\<rparr>])
      else Some its) = Some y"
  show "inc' \<le> 0 \<longrightarrow> ed' < v'"
  proof (cases "v' \<le> ed'")
    case True
    with step have "f (v' + inc') ed' inc' pl bt ex m
             (its @
               [\<lparr>val = v',
                 padded = zfill (py_str v') pl,
                 prefix = [],
                 suffix = [],
                 reason = (if ex \<and> bt \<in> set [''leading'', ''trailing''] \<and> truthy m
                           then bt @ '' (possible boundary)'' else bt)\<rparr>]) = Some y"
      by simp
    then have "inc' \<le> 0 \<longrightarrow> ed' < v' + inc'" by (rule IH)
    with True show ?thesis by auto
  next
    case False
    then show ?thesis by simp
  qed
qed

lemma missing_loop_diverges:
  "inc \<le> 0 \<Longrightarrow> v \<le> ed \<Longrightarrow> missing_loop v ed inc pad_len btype expl mb items = None"
  using missing_loop_Some_imp [of v ed inc pad_len btype expl mb items]
  by (cases "missing_loop v ed inc pad_len btype expl mb items") auto


lemma scan_picks_eq:
  "\<forall>p \<in> set ps. coverage p \<noteq> [] \<Longrightarrow>
   scan_picks at ps all_ints rci total_size real_count =
     Inr (all_ints @ concat (map coverage ps), rci @ real_cov_of ps,
          total_size + (if at = Files then sum_list (map (\<lambda>p. fsize (item p)) ps) else 0),
          real_count + (if at = Files then length ps else 0))"
proof (induction ps arbitrary: all_ints rci total_size real_count)
  case Nil
  then show ?case by (simp add: real_cov_of_def)
next
  case (Cons p ps)
  then obtain mv r where cov: "coverage p = mv # r" by (cases "coverage p") auto
  from Cons.prems have rest: "\<forall>p \<in> set ps. coverage p \<noteq> []" by simp
  show ?case
    by (simp add: cov Let_def Cons.IH [OF rest] real_cov_of_def)
qed

lemma count_segment_of: "count (segment_of st ed btype expl mb inc) > 0 \<longleftrightarrow> 1 \<le> inc \<and> st \<le> ed"
  by (simp add: segment_of_def upto_step_Nil)

lemma internal_loop_eq:
  "1 \<le> inc \<Longrightarrow>
   internal_loop xs expl mb inc segs = Some (segs @ internal_segments xs expl mb inc)"
proof (induction xs expl mb inc segs rule: internal_loop.induct)
  case (1 cval nval rest expl mb inc segs)
  then show ?case
    by (simp add: internal_segments_def build_missing_segment_eq append_segment_def
        count_segment_of)
next
  case (2 x expl mb inc segs)
  then show ?case by (simp add: internal_segments_def)
next
  case (3 expl mb inc segs)
  then show ?case by (simp add: internal_segments_def)
qed

lemma sorted_set_Nil: "sorted_set xs = [] \<longleftrightarrow> xs = []"
  by (metis sorted_set_def set_remdups set_sort set_empty)

lemma detect_eq:
  assumes cov: "\<forall>p \<in> set (picks g). coverage p \<noteq> []" and inc: "1 \<le> inc"
  shows "detect_breaks_in_group g sn en mb inc expl =
    Some (Inr (if picks g = [] then empty_result g
               else \<lparr>group_info = g,
                     segments = fill_prefix (real_cov_of (picks g))
                                  (raw_segments (observed g) sn en mb inc expl),
                     stats = \<lparr>num_missing =
                                sum_list (map count (raw_segments (observed g) sn en mb inc expl)),
                              num_real = (if artifact_type g = Files then length (picks g)
                                          else length (observed g)),
                              num_segments =
                                length (raw_segments (observed g) sn en mb inc expl)\<rparr>\<rparr>))"
proof (cases "picks g = []")
  case True
  then show ?thesis by (simp add: detect_breaks_in_group_def)
next
  case False
  then obtain p where "p \<in> set (picks g)" by (cases "picks g") auto
  with cov have "concat (map coverage (picks g)) \<noteq> []" by auto
  then have ne: "observed g \<noteq> []" by (simp add: observed_def sorted_set_Nil)
  show ?thesis
    using False ne inc
    by (simp add: detect_breaks_in_group_def scan_picks_eq [OF cov] Let_def
        build_missing_segment_eq internal_loop_eq append_segment_def count_segment_of
        raw_segments_def seq_start_of_def seq_end_of_def observed_def
        split: option.splits)
qed

subsection \<open>Segments of a group\<close>

lemma sorted_set_props: "sorted (sorted_set xs)" "distinct (sorted_set xs)" "set (sorted_set xs) = set xs"
  by (simp_all add: sorted_set_def)

lemma sorted_hd_Min: "sorted xs \<Longrightarrow> xs \<noteq> [] \<Longrightarrow> hd xs = Min (set xs)"
  by (cases xs) (auto intro!: Min_eqI [symmetric])

lemma sorted_last_Max: "sorted xs \<Longrightarrow> xs \<noteq> [] \<Longrightarrow> last xs = Max (set xs)"
  by (induction xs) (auto intro!: Max_eqI [symmetric] simp: max_def)

lemma seg_bounds_fill_prefix: "map seg_bounds (fill_prefix rci segs) = map seg_bounds segs"
  by (simp add: fill_prefix_def seg_bounds_def)

lemma seg_bounds_segment_of [simp]: "seg_bounds (segment_of st ed bt expl mb inc) = (st, ed, bt)"
  by (simp add: seg_bounds_def segment_of_def)

lemma seq_start_expected: "\<forall>m. mb = Some m \<longrightarrow> 0 < m \<Longrightarrow> seq_start_of sn mb a = expected_start sn mb a"
  by (auto simp: seq_start_of_def expected_start_def minus_mod_eq_div_mult split: option.splits)

lemma seq_end_expected: "\<forall>m. mb = Some m \<longrightarrow> 0 < m \<Longrightarrow> seq_end_of en mb a = expected_end en mb a"
  by (auto simp: seq_end_of_def expected_end_def minus_mod_eq_div_mult algebra_simps split: option.splits)

lemma seg_bounds_internal:
  "1 \<le> inc \<Longrightarrow> map seg_bounds (internal_segments xs expl mb inc) =
     filter (\<lambda>(s, e, k). \<not> e < s) (map (\<lambda>(cur, nxt). (cur + inc, nxt - 1, ''internal''))
       (filter (\<lambda>(cur, nxt). nxt - cur > inc) (zip xs (tl xs))))"
  by (induction xs rule: induct_list012) (auto simp: internal_segments_def)

lemma seg_bounds_raw:
  assumes "sorted V" "V \<noteq> []" "1 \<le> inc" "\<forall>m. mb = Some m \<longrightarrow> 0 < m"
  shows "map seg_bounds (raw_segments V sn en mb inc expl) = spec_segments V sn en mb inc"
proof -
  have mn: "Min (set V) = hd V" and mx: "Max (set V) = last V"
    using assms by (simp_all add: sorted_hd_Min sorted_last_Max)
  show ?thesis
    using assms(2-4)
    by (simp add: raw_segments_def spec_segments_def spec_runs_def Let_def seg_bounds_internal
        mn mx seq_start_expected seq_end_expected not_less)
qed

text \<open>
  C1: for a group whose coverage sets are non-empty, a step of at least one and a modulus
  boundary that is positive when set, the detector returns, and the bounds and kinds of
  its segments are those of the specification: expected start and end, a leading run
  \<open>[start, actualMin - increment]\<close> when \<open>start < actualMin\<close>, an internal run
  \<open>[cur + increment, next - 1]\<close> for every adjacent pair with \<open>next - cur > increment\<close>, a
  trailing run \<open>[actualMax + increment, end]\<close> when \<open>end > actualMax\<close>, runs with
  \<open>end < start\<close> dropped. With modulus boundary 100 and observed values 105 and 110 the
  segments are leading \<open>[100,104]\<close>, internal \<open>[106,109]\<close>, trailing \<open>[111,199]\<close>.
\<close>

theorem detect_gaps_segments:
  assumes "\<forall>p \<in> set (picks g). coverage p \<noteq> []" and "1 \<le> inc"
    and "\<forall>m. mb = Some m \<longrightarrow> 0 < m"
  shows "(\<exists>r. detect_breaks_in_group g sn en mb inc expl = Some (Inr r) \<and>
              map seg_bounds (segments r) = spec_segments (observed g) sn en mb inc) \<and>
         (observed g = [105, 110] \<longrightarrow>
            (\<exists>r. detect_breaks_in_group g None None (Some 100) 1 expl = Some (Inr r) \<and>
                 map seg_bounds (segments r) =
                   [(100, 104, ''leading''), (106, 109, ''internal''), (111, 199, ''trailing'')]))"
proof -
  have gen: "\<exists>r. detect_breaks_in_group g sn' en' mb' inc' expl = Some (Inr r) \<and>
              map seg_bounds (segments r) = spec_segments (observed g) sn' en' mb' inc'"
    if "1 \<le> inc'" and "\<forall>m. mb' = Some m \<longrightarrow> 0 < m" for sn' en' mb' inc'
  proof (cases "picks g = []")
    case True
    then show ?thesis
      using that assms(1)
      by (simp add: detect_eq empty_result_def spec_segments_def observed_def sorted_set_def)
  next
    case False
    then obtain p where "p \<in> set (picks g)" by (cases "picks g") auto
    with assms(1) have "concat (map coverage (picks g)) \<noteq> []" by auto
    then have ne: "observed g \<noteq> []" by (simp add: observed_def sorted_set_Nil)
    have "sorted (observed g)" by (simp add: observed_def sorted_set_props)
    then show ?thesis
      using False that assms(1) ne
      by (simp add: detect_eq seg_bounds_fill_prefix seg_bounds_raw)
  qed
  have "spec_segments [105, 110] None None (Some 100) 1 =
      [(100, 104, ''leading''), (106, 109, ''internal''), (111, 199, ''trailing'')]"
    by (simp add: spec_segments_def spec_runs_def expected_start_def expected_end_def)
  then show ?thesis
    using gen [of inc mb sn en] gen [of 1 "Some 100" None None] assms(2,3) by auto
qed

theorem detect_gaps_segments_witness:
  "list_all (\<lambda>p. coverage p \<noteq> []) (picks boundary_group) \<and> (1::int) \<le> 1 \<and> (0::int) < 100 \<and>
   observed boundary_group = [105, 110] \<and>
   (\<exists>r. detect_breaks_in_group boundary_group None None (Some 100) 1 False = Some (Inr r) \<and>
        map seg_bounds (segments r) =
          [(100, 104, ''leading''), (106, 109, ''internal''), (111, 199, ''trailing'')])"
proof -
  have h1: "\<forall>p \<in> set (picks boundary_group). coverage p \<noteq> []"
    by (simp add: boundary_group_def)
  have h2: "\<forall>m. Some (100::int) = Some m \<longrightarrow> 0 < m" by simp
  have h3: "observed boundary_group = [105, 110]"
    by (simp add: boundary_group_def observed_def sorted_set_def)
  show ?thesis
    using detect_gaps_segments [OF h1 _ h2, of 1 None None False] h1 h3
    by (simp add: list_all_iff)
qed

subsection \<open>Groups without bounds\<close>

lemma seg_bounds_internal_gaps:
  "map seg_bounds (internal_segments xs expl mb inc) = internal_gaps xs inc"
  by (simp add: internal_segments_def internal_gaps_def split_def)

lemma raw_segments_no_bounds:
  "raw_segments xs None None None inc expl = internal_segments xs expl None inc"
  by (simp add: raw_segments_def seq_start_of_def seq_end_of_def)

lemma boundary_type_internal:
  "s \<in> set (fill_prefix rci (internal_segments xs expl mb inc)) \<Longrightarrow> boundary_type s = ''internal''"
  by (auto simp: fill_prefix_def internal_segments_def segment_of_def)

text \<open>
  C3: with no explicit bounds and no modulus boundary, the segments of a group are
  exactly the internal gaps of its observed values, none of them leading or trailing; a
  run of values in which no two neighbours are more than the increment apart (such as
  1..10 with increment 1) gives no segment, nor does a single observed value.
\<close>

theorem no_bounds_internal_only:
  assumes "\<forall>p \<in> set (picks g). coverage p \<noteq> []" and "1 \<le> inc"
  shows "\<exists>r. detect_breaks_in_group g None None None inc expl = Some (Inr r) \<and>
           map seg_bounds (segments r) = internal_gaps (observed g) inc \<and>
           (\<forall>s \<in> set (segments r). boundary_type s = ''internal'') \<and>
           ((\<forall>(cur, nxt) \<in> set (zip (observed g) (tl (observed g))). nxt - cur \<le> inc)
              \<longrightarrow> segments r = []) \<and>
           (length (observed g) = 1 \<longrightarrow> segments r = [])"
proof (cases "picks g = []")
  case True
  then show ?thesis
    using assms
    by (simp add: detect_eq empty_result_def observed_def sorted_set_def internal_gaps_def)
next
  case False
  let ?segs = "fill_prefix (real_cov_of (picks g)) (internal_segments (observed g) expl None inc)"
  have b: "map seg_bounds ?segs = internal_gaps (observed g) inc"
    by (simp add: seg_bounds_fill_prefix seg_bounds_internal_gaps)
  have k: "\<forall>s \<in> set ?segs. boundary_type s = ''internal''"
    by (blast dest: boundary_type_internal)
  have c: "?segs = []"
    if "\<forall>(cur, nxt) \<in> set (zip (observed g) (tl (observed g))). nxt - cur \<le> inc"
  proof -
    from that have "filter (\<lambda>(cur, nxt). nxt - cur > inc) (zip (observed g) (tl (observed g))) = []"
      by (auto simp: filter_empty_conv)
    then show ?thesis by (simp add: fill_prefix_def internal_segments_def)
  qed
  have o: "?segs = []" if "length (observed g) = 1"
  proof -
    from that obtain x where "observed g = [x]" by (cases "observed g") auto
    then show ?thesis by (simp add: fill_prefix_def internal_segments_def)
  qed
  show ?thesis
    using False assms b k c o by (simp add: detect_eq raw_segments_no_bounds)
qed

theorem no_bounds_internal_only_witness:
  "list_all (\<lambda>p. coverage p \<noteq> []) (picks contiguous_group) \<and> (1::int) \<le> 1 \<and>
   observed contiguous_group = [1, 2, 3, 4, 5, 6, 7, 8, 9, 10] \<and>
   (\<exists>r. detect_breaks_in_group contiguous_group None None None 1 False = Some (Inr r) \<and>
        segments r = [])"
proof -
  have h1: "\<forall>p \<in> set (picks contiguous_group). coverage p \<noteq> []"
    by (simp add: contiguous_group_def)
  have h3: "observed contiguous_group = [1, 2, 3, 4, 5, 6, 7, 8, 9, 10]"
    by (simp add: contiguous_group_def observed_def sorted_set_def)
  have h4: "\<forall>(cur, nxt) \<in> set (zip (observed contiguous_group) (tl (observed contiguous_group))).
      nxt - cur \<le> 1"
    by (simp add: h3)
  show ?thesis
    using no_bounds_internal_only [OF h1, of 1 False] h1 h3 h4
    by (auto simp: list_all_iff)
qed

subsection \<open>Coverage parsing\<close>

lemma digit_not_space: "is_digit c \<Longrightarrow> \<not> is_space c"
  by (auto simp: is_digit_def is_space_def)

lemma strip_digits:
  assumes ne: "ds \<noteq> []" and dg: "list_all is_digit ds"
  shows "strip ds = ds"
proof -
  from ne dg have "\<not> is_space (hd ds)" and "\<not> is_space (last ds)"
    by (simp_all add: list_all_iff digit_not_space)
  then have "\<not> is_space (hd ds)" and "\<not> is_space (hd (rev ds))"
    using ne by (simp_all add: hd_rev)
  then have "dropWhile is_space ds = ds" and "dropWhile is_space (rev ds) = rev ds"
    using ne by (simp_all add: dropWhile_eq_self_iff)
  then show ?thesis by (simp add: strip_def)
qed

lemma digits_us_ok_digits: "ds \<noteq> [] \<Longrightarrow> list_all is_digit ds \<Longrightarrow> digits_us_ok ds"
  by (induction ds rule: digits_us_ok.induct) (auto simp: is_digit_def)

lemma py_int_digits:
  assumes "ds \<noteq> []" "list_all is_digit ds" "length ds \<le> max_str_digits"
  shows "py_int ds = Some (int (dec_val ds))"
proof -
  from assms have "is_digit (hd ds)" by (cases ds) auto
  then have sg: "hd ds \<noteq> CHR ''-''" "hd ds \<noteq> CHR ''+''" by (auto simp: is_digit_def)
  from assms(2) have "filter (\<lambda>c. c \<noteq> CHR ''_'') ds = ds"
    by (auto simp: list_all_iff is_digit_def filter_id_conv)
  with assms sg show ?thesis
    by (simp add: py_int_def strip_digits digits_us_ok_digits Let_def)
qed

lemma py_int_long:
  assumes "list_all is_digit ds" "max_str_digits < length ds"
  shows "py_int ds = None"
proof -
  from assms(2) have ne: "ds \<noteq> []" by auto
  with assms(1) have "is_digit (hd ds)" by (cases ds) auto
  then have sg: "hd ds \<noteq> CHR ''-''" "hd ds \<noteq> CHR ''+''" by (auto simp: is_digit_def)
  from assms(1) have "filter (\<lambda>c. c \<noteq> CHR ''_'') ds = ds"
    by (auto simp: list_all_iff is_digit_def filter_id_conv)
  with assms ne sg show ?thesis
    by (simp add: py_int_def strip_digits Let_def)
qed


lemma digit_runs_digits: "r \<in> set (digit_runs s) \<Longrightarrow> r \<noteq> [] \<and> list_all is_digit r"
proof (induction s rule: digit_runs.induct)
  case 1
  then show ?case by simp
next
  case (2 c cs)
  show ?case
  proof (cases "is_digit c")
    case True
    with "2.prems" have "r = c # takeWhile is_digit cs \<or> r \<in> set (digit_runs (dropWhile is_digit cs))"
      by simp
    then show ?thesis
    proof
      assume "r = c # takeWhile is_digit cs"
      moreover have "list_all is_digit (takeWhile is_digit cs)"
        unfolding list_all_iff by (blast dest: set_takeWhileD)
      ultimately show ?thesis using True by simp
    next
      assume "r \<in> set (digit_runs (dropWhile is_digit cs))"
      then show ?thesis using "2.IH"(1) [OF True] by blast
    qed
  next
    case False
    with "2.prems" have "r \<in> set (digit_runs cs)" by simp
    then show ?thesis using "2.IH"(2) [OF False] by blast
  qed
qed

lemma ints_of_digits:
  "\<forall>r \<in> set bs. r \<noteq> [] \<and> list_all is_digit r \<and> length r \<le> max_str_digits \<Longrightarrow>
   ints_of bs = Inr (map (\<lambda>b. int (dec_val b)) bs)"
  by (induction bs) (simp_all add: py_int_digits)

lemma ints_of_digit_runs:
  assumes "runs_in_limit nm"
  shows "ints_of (digit_runs nm) = Inr (block_values nm)"
proof -
  have "\<forall>r \<in> set (digit_runs nm). r \<noteq> [] \<and> list_all is_digit r \<and> length r \<le> max_str_digits"
  proof
    fix r
    assume r: "r \<in> set (digit_runs nm)"
    with assms have "length r \<le> max_str_digits" by (simp add: runs_in_limit_def list_all_iff)
    with digit_runs_digits [OF r] show "r \<noteq> [] \<and> list_all is_digit r \<and> length r \<le> max_str_digits"
      by simp
  qed
  then show ?thesis unfolding block_values_def by (rule ints_of_digits)
qed

lemma ints_of_error: "\<exists>r \<in> set bs. py_int r = None \<Longrightarrow> ints_of bs = Inl ValueError"
proof (induction bs)
  case Nil
  then show ?case by simp
next
  case (Cons b bs)
  show ?case
  proof (cases "py_int b")
    case None
    then show ?thesis by simp
  next
    case (Some i)
    with Cons.prems have "\<exists>r \<in> set bs. py_int r = None" by auto
    with Cons.IH Some show ?thesis by simp
  qed
qed

lemma ints_of_long_runs:
  assumes "\<not> runs_in_limit nm"
  shows "ints_of (digit_runs nm) = Inl ValueError"
proof -
  from assms obtain r where r: "r \<in> set (digit_runs nm)" "max_str_digits < length r"
    by (auto simp: runs_in_limit_def list_all_iff not_le)
  from digit_runs_digits [OF r(1)] r(2) have "py_int r = None" by (simp add: py_int_long)
  with r(1) show ?thesis by (intro ints_of_error) blast
qed

lemma foldl_max_Max: "foldl max (x::int) xs = Max (set (x # xs))"
proof (induction xs arbitrary: x)
  case Nil
  then show ?case by simp
next
  case (Cons y ys)
  have "Max (insert (max x y) (set ys)) = Max (insert x (insert y (set ys)))"
    by (cases "set ys = {}") (simp_all add: max.assoc)
  with Cons show ?case by simp
qed

lemma py_max_Max: "xs \<noteq> [] \<Longrightarrow> py_max xs = Inr (Max (set xs))"
  by (cases xs) (simp_all add: py_max_def foldl_max_Max del: set_simps Max_insert)

lemma add_ranges_ok:
  "list_all numeric_match ms \<Longrightarrow>
   \<exists>cov'. add_ranges ms cov = Inr cov' \<and> set cov' = set cov \<union> \<Union> (match_range ` set ms)"
proof (induction ms cov rule: add_ranges.induct)
  case (1 cov)
  then show ?case by simp
next
  case (2 w ms cov)
  then show ?case by simp
next
  case (3 gs ms cov)
  show ?case
  proof (cases "2 \<le> length gs")
    case False
    with 3 show ?thesis by simp
  next
    case True
    with "3.prems" obtain a b where ab: "py_int (gs ! 0) = Some a" "py_int (gs ! 1) = Some b"
      by auto
    from "3.IH"(1) [OF True ab] "3.prems"
    obtain cov' where "add_ranges ms (cov @ [min a b..max a b]) = Inr cov'"
      "set cov' = set (cov @ [min a b..max a b]) \<union> \<Union> (match_range ` set ms)"
      by auto
    with True ab show ?thesis by auto
  qed
qed

lemma add_ranges_error:
  "\<not> list_all numeric_match ms \<Longrightarrow> add_ranges ms cov = Inl ValueError"
  by (induction ms cov rule: add_ranges.induct) (auto split: option.splits)

lemma add_ranges_skip:
  "list_all (\<lambda>m. case m of Whole w \<Rightarrow> True | Groups gs \<Rightarrow> length gs < 2) ms \<Longrightarrow>
   add_ranges ms cov = Inr cov"
  by (induction ms cov rule: add_ranges.induct) auto

lemma coverage_for_block_off: "coverage_for_block False rx nm seed = Inr [seed]"
  by (simp add: coverage_for_block_def sorted_set_def)

lemma coverage_for_block_ok:
  assumes "mr \<longrightarrow> list_all numeric_match (rx nm)"
  shows "\<exists>c. coverage_for_block mr rx nm seed = Inr c \<and> sorted c \<and> distinct c \<and>
           set c = {seed} \<union> (if mr then \<Union> (match_range ` set (rx nm)) else {})"
proof (cases mr)
  case False
  then show ?thesis by (simp add: coverage_for_block_off)
next
  case True
  with assms obtain cov' where "add_ranges (rx nm) [seed] = Inr cov'"
    "set cov' = set [seed] \<union> \<Union> (match_range ` set (rx nm))"
    using add_ranges_ok [of "rx nm" "[seed]"] by auto
  with True show ?thesis by (simp add: coverage_for_block_def sorted_set_def)
qed

lemma loops_equal: "all_loop mr rx nm bs result = advanced_loop mr rx nm bs result"
  by (induction bs arbitrary: result) (simp_all split: sum.splits)






text \<open>
  C8: the policies \<open>all\<close> and \<open>multi-block-advanced\<close> give the same sequence of coverage
  sets (or raise the same error), for every item and every configuration of the extractor.
\<close>

theorem all_equals_multi_block_advanced:
  "parse_coverage_list it All mr rx = parse_coverage_list it MultiBlockAdvanced mr rx"
  by (simp add: parse_coverage_list_def Let_def loops_equal split: sum.splits)

subsection \<open>Range expansion\<close>

lemma add_ranges_few:
  "list_all few_groups ms \<Longrightarrow> add_ranges ms cov = Inr cov"
  by (induction ms cov rule: add_ranges.induct) auto

lemma map_result_Inr:
  assumes "map_option (map_sum id f) x = Some (Inr y)"
  shows "\<exists>rs. x = Some (Inr rs) \<and> f rs = y"
proof (cases x)
  case None
  with assms show ?thesis by simp
next
  case (Some s)
  with assms show ?thesis by (cases s) simp_all
qed

lemma analyze_empty: "analyze [] a at = Some (Inr [])"
  by (simp add: analyze_def group_items_def build_groups_from_flat_def)

lemma all_loop_nonempty:
  "all_loop mr rx nm bs result = Inr cl \<Longrightarrow> \<forall>c \<in> set result. c \<noteq> [] \<Longrightarrow> \<forall>c \<in> set cl. c \<noteq> []"
proof (induction bs arbitrary: result)
  case Nil
  then show ?case by simp
next
  case (Cons b bs)
  from Cons.prems(1) obtain c where c: "coverage_for_block mr rx nm b = Inr c"
    and l: "all_loop mr rx nm bs (if c \<noteq> [] then result @ [c] else result) = Inr cl"
    by (auto split: sum.splits)
  from Cons.prems(2) have "\<forall>x \<in> set (if c \<noteq> [] then result @ [c] else result). x \<noteq> []"
    by simp
  with l show ?case by (rule Cons.IH)
qed

lemma all_loop_ok:
  "mr \<longrightarrow> list_all numeric_match (rx nm) \<Longrightarrow> \<exists>cl. all_loop mr rx nm bs result = Inr cl"
proof (induction bs arbitrary: result)
  case Nil
  then show ?case by simp
next
  case (Cons b bs)
  from coverage_for_block_ok [of mr rx nm b] Cons.prems
  obtain c where c: "coverage_for_block mr rx nm b = Inr c" by blast
  from Cons.IH [OF Cons.prems, of "if c \<noteq> [] then result @ [c] else result"] c
  show ?case by simp
qed

lemma parse_nonempty:
  assumes "parse_coverage_list it bp mr rx = Inr cl"
  shows "\<forall>c \<in> set cl. c \<noteq> []"
proof (cases bp)
  case First
  with assms show ?thesis
    by (auto simp: parse_coverage_list_def Let_def split: if_splits sum.splits list.splits)
next
  case Largest
  with assms show ?thesis
    by (auto simp: parse_coverage_list_def Let_def split: if_splits sum.splits)
next
  case All
  with assms have "cl = [] \<or> (\<exists>bs. all_loop mr rx (name it) bs [] = Inr cl)"
    by (auto simp: parse_coverage_list_def Let_def split: if_splits sum.splits)
  then show ?thesis using all_loop_nonempty [of mr rx "name it" _ "[]" cl] by auto
next
  case MultiBlockAdvanced
  with assms have "cl = [] \<or> (\<exists>bs. all_loop mr rx (name it) bs [] = Inr cl)"
    by (auto simp: parse_coverage_list_def Let_def loops_equal split: if_splits sum.splits)
  then show ?thesis using all_loop_nonempty [of mr rx "name it" _ "[]" cl] by auto
qed

lemma parse_ok:
  assumes "mr \<longrightarrow> list_all numeric_match (rx (name it))" and lim: "runs_in_limit (name it)"
  shows "\<exists>cl. parse_coverage_list it bp mr rx = Inr cl"
proof (cases "digit_runs (name it) = []")
  case True
  then show ?thesis by (simp add: parse_coverage_list_def)
next
  case False
  then have ne: "block_values (name it) \<noteq> []" by (simp add: block_values_def)
  then obtain v vs where bv: "block_values (name it) = v # vs" by (cases "block_values (name it)") auto
  from coverage_for_block_ok [of mr rx "name it"] assms(1)
  have cb: "\<exists>c. coverage_for_block mr rx (name it) w = Inr c" for w by blast
  show ?thesis
  proof (cases bp)
    case First
    from cb [of v] obtain c where "coverage_for_block mr rx (name it) v = Inr c" ..
    with First False bv lim show ?thesis
      by (simp add: parse_coverage_list_def Let_def ints_of_digit_runs)
  next
    case Largest
    from cb [of "Max (set (block_values (name it)))"]
    obtain c where "coverage_for_block mr rx (name it) (Max (set (block_values (name it)))) = Inr c" ..
    with Largest False ne lim show ?thesis
      by (simp add: parse_coverage_list_def Let_def ints_of_digit_runs py_max_Max)
  next
    case All
    with False all_loop_ok [of mr rx "name it" "block_values (name it)" "[]"] assms show ?thesis
      by (simp add: parse_coverage_list_def Let_def ints_of_digit_runs)
  next
    case MultiBlockAdvanced
    with False all_loop_ok [of mr rx "name it" "block_values (name it)" "[]"] assms show ?thesis
      by (simp add: parse_coverage_list_def Let_def ints_of_digit_runs loops_equal)
  qed
qed

lemma coverage_for_block_error:
  "\<not> list_all numeric_match (rx nm) \<Longrightarrow> coverage_for_block True rx nm v = Inl ValueError"
  by (simp add: coverage_for_block_def add_ranges_error)

lemma parse_error_iff:
  "parse_coverage_list it bp mr rx = Inl ValueError \<longleftrightarrow>
     digit_runs (name it) \<noteq> [] \<and>
     (\<not> runs_in_limit (name it) \<or> (mr \<and> \<not> list_all numeric_match (rx (name it))))"
proof (cases "digit_runs (name it) = []")
  case True
  then show ?thesis by (simp add: parse_coverage_list_def)
next
  case ne: False
  show ?thesis
  proof (cases "runs_in_limit (name it)")
    case False
    with ne show ?thesis by (simp add: parse_coverage_list_def ints_of_long_runs)
  next
    case lim: True
    show ?thesis
    proof (cases "mr \<and> \<not> list_all numeric_match (rx (name it))")
      case False
      then have "mr \<longrightarrow> list_all numeric_match (rx (name it))" by blast
      with parse_ok [of mr rx it bp] lim obtain cl
        where "parse_coverage_list it bp mr rx = Inr cl" by blast
      with False lim show ?thesis by simp
    next
      case True
      then have mr: mr and bad: "\<not> list_all numeric_match (rx (name it))" by simp_all
      have cb: "coverage_for_block True rx (name it) v = Inl ValueError" for v
        using bad by (rule coverage_for_block_error)
      from ne obtain v vs where vs: "block_values (name it) = v # vs"
        by (cases "block_values (name it)") (simp_all add: block_values_def)
      have "parse_coverage_list it bp mr rx = Inl ValueError"
      proof (cases bp)
        case First
        with ne lim mr vs cb show ?thesis
          by (simp add: parse_coverage_list_def Let_def ints_of_digit_runs)
      next
        case Largest
        with ne lim mr vs cb show ?thesis
          by (simp add: parse_coverage_list_def Let_def ints_of_digit_runs py_max_def)
      next
        case All
        with ne lim mr vs cb show ?thesis
          by (simp add: parse_coverage_list_def Let_def ints_of_digit_runs)
      next
        case MultiBlockAdvanced
        with ne lim mr vs cb show ?thesis
          by (simp add: parse_coverage_list_def Let_def ints_of_digit_runs)
      qed
      with ne True show ?thesis by simp
    qed
  qed
qed

lemma parse_no_index_error: "parse_coverage_list it bp mr rx \<noteq> Inl IndexError"
proof (cases "parse_coverage_list it bp mr rx = Inl ValueError")
  case True
  then show ?thesis by simp
next
  case False
  with parse_error_iff [of it bp mr rx]
  have "digit_runs (name it) = [] \<or>
        (runs_in_limit (name it) \<and> (mr \<longrightarrow> list_all numeric_match (rx (name it))))"
    by blast
  then show ?thesis
  proof
    assume "digit_runs (name it) = []"
    then show ?thesis by (simp add: parse_coverage_list_def)
  next
    assume a: "runs_in_limit (name it) \<and> (mr \<longrightarrow> list_all numeric_match (rx (name it)))"
    with parse_ok [of mr rx it bp] obtain cl
      where "parse_coverage_list it bp mr rx = Inr cl" by blast
    then show ?thesis by simp
  qed
qed

lemma coverage_for_block_few:
  "list_all few_groups (rx nm) \<Longrightarrow> coverage_for_block mr rx nm v = Inr [v]"
  by (simp add: coverage_for_block_def add_ranges_few sorted_set_def)

lemma all_loop_few:
  "list_all few_groups (rx nm) \<Longrightarrow>
   all_loop True rx nm bs result = all_loop False rx nm bs result"
  by (induction bs arbitrary: result) (simp_all add: coverage_for_block_few)

lemma parse_few:
  assumes "list_all few_groups (rx (name it))"
  shows "parse_coverage_list it bp True rx = parse_coverage_list it bp False rx"
proof -
  have c: "coverage_for_block mr rx (name it) v = Inr [v]" for mr v
    using assms by (rule coverage_for_block_few)
  have l: "all_loop True rx (name it) bs [] = all_loop False rx (name it) bs []" for bs
    using assms by (rule all_loop_few)
  show ?thesis
    unfolding parse_coverage_list_def loops_equal [symmetric]
    by (simp add: Let_def c l cong: sum.case_cong block_policy.case_cong list.case_cong)
qed


text \<open>
  C6, in the form that holds: with range expansion on and a pattern whose matches carry integers,
  the coverage set of a seed is the seed together with every integer of \<open>[low, high]\<close>
  of every match of the pattern in the item name, sorted and without repetition. For
  \<^verbatim>\<open>archive_100-103.zip\<close> and the default pattern every coverage set is
  \<open>{100, 101, 102, 103}\<close>; the policies \<open>first\<close> and \<open>largest\<close> give it once, the
  policies \<open>all\<close> and \<open>multi-block-advanced\<close> give it twice, once for each digit run.
\<close>

theorem range_expansion_coverage:
  assumes "list_all numeric_match (rx nm)"
  shows "(\<exists>c. coverage_for_block True rx nm seed = Inr c \<and> sorted c \<and> distinct c \<and>
              set c = {seed} \<union> \<Union> (match_range ` set (rx nm))) \<and>
         parse_coverage_list archive_item First True default_range_regex =
           Inr [[100, 101, 102, 103]] \<and>
         parse_coverage_list archive_item Largest True default_range_regex =
           Inr [[100, 101, 102, 103]] \<and>
         parse_coverage_list archive_item All True default_range_regex =
           Inr [[100, 101, 102, 103], [100, 101, 102, 103]] \<and>
         parse_coverage_list archive_item MultiBlockAdvanced True default_range_regex =
           Inr [[100, 101, 102, 103], [100, 101, 102, 103]]"
proof -
  have "\<exists>c. coverage_for_block True rx nm seed = Inr c \<and> sorted c \<and> distinct c \<and>
              set c = {seed} \<union> \<Union> (match_range ` set (rx nm))"
    using coverage_for_block_ok [of True rx nm seed] assms by simp
  moreover have "parse_coverage_list archive_item First True default_range_regex =
           Inr [[100, 101, 102, 103]]"
    by code_simp
  moreover have "parse_coverage_list archive_item Largest True default_range_regex =
           Inr [[100, 101, 102, 103]]"
    by code_simp
  moreover have "parse_coverage_list archive_item All True default_range_regex =
           Inr [[100, 101, 102, 103], [100, 101, 102, 103]]"
    by code_simp
  moreover have "parse_coverage_list archive_item MultiBlockAdvanced True default_range_regex =
           Inr [[100, 101, 102, 103], [100, 101, 102, 103]]"
    by code_simp
  ultimately show ?thesis by blast
qed

theorem range_expansion_coverage_witness:
  "list_all numeric_match (default_range_regex ''archive_100-103.zip'') \<and>
   (\<exists>c. coverage_for_block True default_range_regex ''archive_100-103.zip'' 100 = Inr c \<and>
        sorted c \<and> distinct c \<and> set c = {100} \<union> {100 .. 103})"
proof -
  have m: "default_range_regex ''archive_100-103.zip'' = [Groups [''100'', ''103'']]"
    by (simp add: is_digit_def)
  have i: "py_int ''100'' = Some 100" "py_int ''103'' = Some 103"
    by (simp_all add: py_int_def strip_def is_space_def is_digit_def dec_val_def digit_val_def
        max_str_digits_def)
  have h: "list_all numeric_match (default_range_regex ''archive_100-103.zip'')"
    unfolding m by (simp add: i)
  have u: "\<Union> (match_range ` set (default_range_regex ''archive_100-103.zip'')) = {100 .. 103}"
    unfolding m by (simp add: i)
  show ?thesis
    using range_expansion_coverage
      [of default_range_regex "''archive_100-103.zip''" 100, OF h, THEN conjunct1] h
    unfolding u by blast
qed

theorem single_coverage_set_counterexample:
  "parse_coverage_list archive_item MultiBlockAdvanced True default_range_regex \<noteq>
     Inr [[100, 101, 102, 103]] \<and>
   parse_coverage_list archive_item MultiBlockAdvanced True default_range_regex =
     Inr [[100, 101, 102, 103], [100, 101, 102, 103]]"
proof -
  have "parse_coverage_list archive_item MultiBlockAdvanced True default_range_regex =
     Inr [[100, 101, 102, 103], [100, 101, 102, 103]]"
    by code_simp
  then show ?thesis by simp
qed

text \<open>
  C9, in the form that holds: no range pattern is an error at setup, and the pattern is
  examined item by item. The extraction of one item raises \<^verbatim>\<open>ValueError\<close> exactly when
  the name of the item has a digit run and either one of its digit runs has more digits
  than \<^verbatim>\<open>int()\<close> converts, or range expansion is on and a match of the pattern in that
  name has two or more groups one of whose first two is not an integer literal; an item
  without a digit run gets no coverage before the pattern is applied, so nothing is
  raised for it. No other exception is raised. A pattern whose matches are strings or
  tuples of fewer than two groups changes nothing: the extraction is the one with range
  expansion off and a coverage set stays at its seed. One call of \<^verbatim>\<open>coverage_for_block\<close>
  with range expansion on raises exactly when such a match is in the name. With no item
  to process nothing is raised, whatever the pattern.
\<close>

theorem range_pattern_checked_per_item:
  "(parse_coverage_list it bp mr rx = Inl ValueError \<longleftrightarrow>
      digit_runs (name it) \<noteq> [] \<and>
      (\<not> runs_in_limit (name it) \<or> (mr \<and> \<not> list_all numeric_match (rx (name it))))) \<and>
   parse_coverage_list it bp mr rx \<noteq> Inl IndexError \<and>
   (list_all few_groups (rx (name it)) \<longrightarrow>
      parse_coverage_list it bp True rx = parse_coverage_list it bp False rx) \<and>
   (list_all few_groups (rx nm) \<longrightarrow> coverage_for_block True rx nm v = Inr [v]) \<and>
   (coverage_for_block True rx nm v = Inl ValueError \<longleftrightarrow> \<not> list_all numeric_match (rx nm)) \<and>
   analyze [] a at = Some (Inr [])"
proof -
  have "coverage_for_block True rx nm v = Inl ValueError \<longleftrightarrow>
      \<not> list_all numeric_match (rx nm)"
  proof (cases "list_all numeric_match (rx nm)")
    case True
    then show ?thesis
      using coverage_for_block_ok [of True rx nm v] by auto
  next
    case False
    then show ?thesis by (simp add: coverage_for_block_error)
  qed
  then show ?thesis
    using parse_error_iff [of it bp mr rx] parse_no_index_error [of it bp mr rx]
      parse_few [of rx it bp] coverage_for_block_few [of rx nm True v]
    by (simp add: analyze_empty)
qed

theorem range_pattern_checked_per_item_witness:
  "digit_runs (name letters_digit_item) \<noteq> [] \<and>
   \<not> list_all numeric_match (alpha_range_regex (name letters_digit_item)) \<and>
   parse_coverage_list letters_digit_item First True alpha_range_regex = Inl ValueError \<and>
   parse_coverage_list letters_digit_item First False alpha_range_regex = Inr [[7]] \<and>
   digit_runs (name letters_item) = [] \<and>
   \<not> list_all numeric_match (alpha_range_regex (name letters_item)) \<and>
   parse_coverage_list letters_item First True alpha_range_regex = Inr [] \<and>
   list_all few_groups (one_group_regex (name archive_item)) \<and>
   parse_coverage_list archive_item First True one_group_regex = Inr [[100]]"
proof -
  have h1: "digit_runs (name letters_digit_item) \<noteq> []" by code_simp
  have h2: "\<not> list_all numeric_match (alpha_range_regex (name letters_digit_item))"
    by code_simp
  have h3: "digit_runs (name letters_item) = []" by code_simp
  have h4: "\<not> list_all numeric_match (alpha_range_regex (name letters_item))" by code_simp
  have h5: "list_all few_groups (one_group_regex (name archive_item))" by code_simp
  have e1: "parse_coverage_list letters_digit_item First False alpha_range_regex = Inr [[7]]"
    by code_simp
  have e2: "parse_coverage_list archive_item First False one_group_regex = Inr [[100]]"
    by code_simp
  have a: "parse_coverage_list letters_digit_item First True alpha_range_regex = Inl ValueError"
    using range_pattern_checked_per_item [of letters_digit_item First True alpha_range_regex]
      h1 h2 by blast
  have "parse_coverage_list letters_item First True alpha_range_regex \<noteq> Inl ValueError"
    using range_pattern_checked_per_item [of letters_item First True alpha_range_regex] h3
    by blast
  moreover have "parse_coverage_list letters_item First True alpha_range_regex = Inr []"
    by code_simp
  moreover have "parse_coverage_list archive_item First True one_group_regex = Inr [[100]]"
    using range_pattern_checked_per_item [of archive_item First True one_group_regex] h5 e2
    by simp
  ultimately show ?thesis using h1 h2 h3 h4 h5 e1 a by simp
qed

theorem malformed_pattern_counterexample:
  "\<exists>rs. analyze [(''/data'', [archive_item])] one_group_args Files = Some (Inr rs) \<and>
        result_coverages rs = [[[100], [103]]]"
proof -
  have "map_option (map_sum id result_coverages)
          (analyze [(''/data'', [archive_item])] one_group_args Files) =
        Some (Inr [[[100], [103]]])"
    by code_simp
  then show ?thesis by (rule map_result_Inr)
qed

subsection \<open>Reconstruction of the missing names\<close>

lemma closest_loop_Some:
  "\<exists>r. closest_loop v rcs (Some b) (Some \<bar>rc_val b - v\<bar>) = Some r \<and>
     ((r = b \<and> (\<forall>x \<in> set rcs. \<bar>rc_val b - v\<bar> \<le> \<bar>rc_val x - v\<bar>)) \<or>
      (\<exists>pre post. rcs = pre @ r # post \<and> \<bar>rc_val r - v\<bar> < \<bar>rc_val b - v\<bar> \<and>
         (\<forall>x \<in> set pre. \<bar>rc_val r - v\<bar> < \<bar>rc_val x - v\<bar>) \<and>
         (\<forall>x \<in> set post. \<bar>rc_val r - v\<bar> \<le> \<bar>rc_val x - v\<bar>)))"
proof (induction rcs arbitrary: b)
  case Nil
  then show ?case by simp
next
  case (Cons rc rcs)
  show ?case
  proof (cases "\<bar>rc_val rc - v\<bar> < \<bar>rc_val b - v\<bar>")
    case True
    from Cons.IH [of rc] obtain r where r: "closest_loop v rcs (Some rc) (Some \<bar>rc_val rc - v\<bar>) = Some r"
      and d: "(r = rc \<and> (\<forall>x \<in> set rcs. \<bar>rc_val rc - v\<bar> \<le> \<bar>rc_val x - v\<bar>)) \<or>
      (\<exists>pre post. rcs = pre @ r # post \<and> \<bar>rc_val r - v\<bar> < \<bar>rc_val rc - v\<bar> \<and>
         (\<forall>x \<in> set pre. \<bar>rc_val r - v\<bar> < \<bar>rc_val x - v\<bar>) \<and>
         (\<forall>x \<in> set post. \<bar>rc_val r - v\<bar> \<le> \<bar>rc_val x - v\<bar>))"
      by blast
    from d have "\<exists>pre post. rc # rcs = pre @ r # post \<and> \<bar>rc_val r - v\<bar> < \<bar>rc_val b - v\<bar> \<and>
         (\<forall>x \<in> set pre. \<bar>rc_val r - v\<bar> < \<bar>rc_val x - v\<bar>) \<and>
         (\<forall>x \<in> set post. \<bar>rc_val r - v\<bar> \<le> \<bar>rc_val x - v\<bar>)"
    proof
      assume "r = rc \<and> (\<forall>x \<in> set rcs. \<bar>rc_val rc - v\<bar> \<le> \<bar>rc_val x - v\<bar>)"
      with True have "rc # rcs = [] @ r # rcs \<and> \<bar>rc_val r - v\<bar> < \<bar>rc_val b - v\<bar> \<and>
         (\<forall>x \<in> set []. \<bar>rc_val r - v\<bar> < \<bar>rc_val x - v\<bar>) \<and>
         (\<forall>x \<in> set rcs. \<bar>rc_val r - v\<bar> \<le> \<bar>rc_val x - v\<bar>)"
        by simp
      then show ?thesis by blast
    next
      assume "\<exists>pre post. rcs = pre @ r # post \<and> \<bar>rc_val r - v\<bar> < \<bar>rc_val rc - v\<bar> \<and>
         (\<forall>x \<in> set pre. \<bar>rc_val r - v\<bar> < \<bar>rc_val x - v\<bar>) \<and>
         (\<forall>x \<in> set post. \<bar>rc_val r - v\<bar> \<le> \<bar>rc_val x - v\<bar>)"
      then obtain pre post where p: "rcs = pre @ r # post" "\<bar>rc_val r - v\<bar> < \<bar>rc_val rc - v\<bar>"
         "\<forall>x \<in> set pre. \<bar>rc_val r - v\<bar> < \<bar>rc_val x - v\<bar>"
         "\<forall>x \<in> set post. \<bar>rc_val r - v\<bar> \<le> \<bar>rc_val x - v\<bar>"
        by blast
      with True have "rc # rcs = (rc # pre) @ r # post \<and> \<bar>rc_val r - v\<bar> < \<bar>rc_val b - v\<bar> \<and>
         (\<forall>x \<in> set (rc # pre). \<bar>rc_val r - v\<bar> < \<bar>rc_val x - v\<bar>) \<and>
         (\<forall>x \<in> set post. \<bar>rc_val r - v\<bar> \<le> \<bar>rc_val x - v\<bar>)"
        by simp
      then show ?thesis by blast
    qed
    with r True show ?thesis by simp
  next
    case False
    from Cons.IH [of b] obtain r where r: "closest_loop v rcs (Some b) (Some \<bar>rc_val b - v\<bar>) = Some r"
      and d: "(r = b \<and> (\<forall>x \<in> set rcs. \<bar>rc_val b - v\<bar> \<le> \<bar>rc_val x - v\<bar>)) \<or>
      (\<exists>pre post. rcs = pre @ r # post \<and> \<bar>rc_val r - v\<bar> < \<bar>rc_val b - v\<bar> \<and>
         (\<forall>x \<in> set pre. \<bar>rc_val r - v\<bar> < \<bar>rc_val x - v\<bar>) \<and>
         (\<forall>x \<in> set post. \<bar>rc_val r - v\<bar> \<le> \<bar>rc_val x - v\<bar>))"
      by blast
    from d have "(r = b \<and> (\<forall>x \<in> set (rc # rcs). \<bar>rc_val b - v\<bar> \<le> \<bar>rc_val x - v\<bar>)) \<or>
      (\<exists>pre post. rc # rcs = pre @ r # post \<and> \<bar>rc_val r - v\<bar> < \<bar>rc_val b - v\<bar> \<and>
         (\<forall>x \<in> set pre. \<bar>rc_val r - v\<bar> < \<bar>rc_val x - v\<bar>) \<and>
         (\<forall>x \<in> set post. \<bar>rc_val r - v\<bar> \<le> \<bar>rc_val x - v\<bar>))"
    proof
      assume "r = b \<and> (\<forall>x \<in> set rcs. \<bar>rc_val b - v\<bar> \<le> \<bar>rc_val x - v\<bar>)"
      with False show ?thesis by simp
    next
      assume "\<exists>pre post. rcs = pre @ r # post \<and> \<bar>rc_val r - v\<bar> < \<bar>rc_val b - v\<bar> \<and>
         (\<forall>x \<in> set pre. \<bar>rc_val r - v\<bar> < \<bar>rc_val x - v\<bar>) \<and>
         (\<forall>x \<in> set post. \<bar>rc_val r - v\<bar> \<le> \<bar>rc_val x - v\<bar>)"
      then obtain pre post where p: "rcs = pre @ r # post" "\<bar>rc_val r - v\<bar> < \<bar>rc_val b - v\<bar>"
         "\<forall>x \<in> set pre. \<bar>rc_val r - v\<bar> < \<bar>rc_val x - v\<bar>"
         "\<forall>x \<in> set post. \<bar>rc_val r - v\<bar> \<le> \<bar>rc_val x - v\<bar>"
        by blast
      with False have "rc # rcs = (rc # pre) @ r # post \<and> \<bar>rc_val r - v\<bar> < \<bar>rc_val b - v\<bar> \<and>
         (\<forall>x \<in> set (rc # pre). \<bar>rc_val r - v\<bar> < \<bar>rc_val x - v\<bar>) \<and>
         (\<forall>x \<in> set post. \<bar>rc_val r - v\<bar> \<le> \<bar>rc_val x - v\<bar>)"
        by simp
      then show ?thesis by blast
    qed
    with r False show ?thesis by simp
  qed
qed

lemma find_closest_first_nearest:
  assumes "real_cov \<noteq> []"
  shows "\<exists>pre rc post. real_cov = pre @ rc # post \<and>
           find_closest_prefix_suffix v real_cov = (rc_prefix rc, rc_suffix rc) \<and>
           (\<forall>x \<in> set pre. \<bar>rc_val rc - v\<bar> < \<bar>rc_val x - v\<bar>) \<and>
           (\<forall>x \<in> set post. \<bar>rc_val rc - v\<bar> \<le> \<bar>rc_val x - v\<bar>)"
proof -
  from assms obtain b rcs where rc: "real_cov = b # rcs" by (cases real_cov) auto
  from closest_loop_Some [of v rcs b] obtain r
    where r: "closest_loop v rcs (Some b) (Some \<bar>rc_val b - v\<bar>) = Some r"
      and d: "(r = b \<and> (\<forall>x \<in> set rcs. \<bar>rc_val b - v\<bar> \<le> \<bar>rc_val x - v\<bar>)) \<or>
      (\<exists>pre post. rcs = pre @ r # post \<and> \<bar>rc_val r - v\<bar> < \<bar>rc_val b - v\<bar> \<and>
         (\<forall>x \<in> set pre. \<bar>rc_val r - v\<bar> < \<bar>rc_val x - v\<bar>) \<and>
         (\<forall>x \<in> set post. \<bar>rc_val r - v\<bar> \<le> \<bar>rc_val x - v\<bar>))"
    by blast
  have f: "find_closest_prefix_suffix v real_cov = (rc_prefix r, rc_suffix r)"
    using r by (simp add: find_closest_prefix_suffix_def rc)
  from d show ?thesis
  proof
    assume "r = b \<and> (\<forall>x \<in> set rcs. \<bar>rc_val b - v\<bar> \<le> \<bar>rc_val x - v\<bar>)"
    with f rc have "real_cov = [] @ r # rcs \<and>
           find_closest_prefix_suffix v real_cov = (rc_prefix r, rc_suffix r) \<and>
           (\<forall>x \<in> set []. \<bar>rc_val r - v\<bar> < \<bar>rc_val x - v\<bar>) \<and>
           (\<forall>x \<in> set rcs. \<bar>rc_val r - v\<bar> \<le> \<bar>rc_val x - v\<bar>)"
      by simp
    then show ?thesis by blast
  next
    assume "\<exists>pre post. rcs = pre @ r # post \<and> \<bar>rc_val r - v\<bar> < \<bar>rc_val b - v\<bar> \<and>
         (\<forall>x \<in> set pre. \<bar>rc_val r - v\<bar> < \<bar>rc_val x - v\<bar>) \<and>
         (\<forall>x \<in> set post. \<bar>rc_val r - v\<bar> \<le> \<bar>rc_val x - v\<bar>)"
    then obtain pre post where p: "rcs = pre @ r # post" "\<bar>rc_val r - v\<bar> < \<bar>rc_val b - v\<bar>"
         "\<forall>x \<in> set pre. \<bar>rc_val r - v\<bar> < \<bar>rc_val x - v\<bar>"
         "\<forall>x \<in> set post. \<bar>rc_val r - v\<bar> \<le> \<bar>rc_val x - v\<bar>"
      by blast
    with f rc have "real_cov = (b # pre) @ r # post \<and>
           find_closest_prefix_suffix v real_cov = (rc_prefix r, rc_suffix r) \<and>
           (\<forall>x \<in> set (b # pre). \<bar>rc_val r - v\<bar> < \<bar>rc_val x - v\<bar>) \<and>
           (\<forall>x \<in> set post. \<bar>rc_val r - v\<bar> \<le> \<bar>rc_val x - v\<bar>)"
      by simp
    then show ?thesis by blast
  qed
qed


lemma raw_segments_shape:
  "s \<in> set (raw_segments V sn en mb inc expl) \<Longrightarrow> \<exists>st ed bt. s = segment_of st ed bt expl mb inc"
  by (auto simp: raw_segments_def internal_segments_def split: if_splits)

lemma fill_prefix_items:
  assumes "seg \<in> set (fill_prefix rci segs)" and "mi \<in> set (missing_items seg)"
  shows "\<exists>s \<in> set segs. end_val seg = end_val s \<and>
           (\<exists>m \<in> set (missing_items s). val mi = val m \<and> padded mi = padded m \<and>
              (prefix mi, suffix mi) = find_closest_prefix_suffix (val m) rci)"
proof -
  from assms(1) obtain s where s: "s \<in> set segs"
    and sg: "seg = s\<lparr>missing_items :=
        map (\<lambda>mi. mi\<lparr>prefix := fst (find_closest_prefix_suffix (val mi) rci),
                       suffix := snd (find_closest_prefix_suffix (val mi) rci)\<rparr>)
          (missing_items s)\<rparr>"
    by (auto simp: fill_prefix_def Let_def)
  from assms(2) sg obtain m where m: "m \<in> set (missing_items s)"
    and mi: "mi = m\<lparr>prefix := fst (find_closest_prefix_suffix (val m) rci),
                  suffix := snd (find_closest_prefix_suffix (val m) rci)\<rparr>"
    by auto
  have "end_val seg = end_val s" by (simp add: sg)
  moreover have "val mi = val m \<and> padded mi = padded m \<and>
      (prefix mi, suffix mi) = find_closest_prefix_suffix (val m) rci"
    by (simp add: mi)
  ultimately show ?thesis using s m by blast
qed

lemma segment_of_items:
  "m \<in> set (missing_items (segment_of st ed bt expl mb inc)) \<Longrightarrow>
   padded m = zfill (py_str (val m)) (length (py_str ed))"
  by (auto simp: segment_of_def missing_entry_def)

lemma real_cov_of_Nil: "\<forall>p \<in> set ps. coverage p \<noteq> [] \<Longrightarrow> real_cov_of ps = [] \<longleftrightarrow> ps = []"
  by (cases ps) (auto simp: real_cov_of_def)

text \<open>
  C4: every missing item of every segment carries the prefix and suffix of the entry of
  \<^verbatim>\<open>real_cov_items\<close> that is nearest to its value, the first such entry when several are
  equally near (all entries before it are strictly farther, all entries after it are not
  nearer), and its padded form is its value filled with zeros to the width of the end
  value of its segment. For \<^verbatim>\<open>img_001.png\<close>, \<^verbatim>\<open>img_002.png\<close>, \<^verbatim>\<open>img_005.png\<close>, the
  policy \<open>first\<close> and increment 1 the result is the one internal segment \<open>[3,4]\<close> of
  count 2 with the names \<^verbatim>\<open>img_003.png\<close> and \<^verbatim>\<open>img_004.png\<close>.
\<close>

theorem reconstruction_nearest:
  assumes "\<forall>p \<in> set (picks g). coverage p \<noteq> []" and "1 \<le> inc"
  shows "(\<exists>r. detect_breaks_in_group g sn en mb inc expl = Some (Inr r) \<and>
            (\<forall>seg \<in> set (segments r). \<forall>mi \<in> set (missing_items seg).
               padded mi = zfill (py_str (val mi)) (length (py_str (end_val seg))) \<and>
               (\<exists>pre rc post. real_cov_of (picks g) = pre @ rc # post \<and>
                  prefix mi = rc_prefix rc \<and> suffix mi = rc_suffix rc \<and>
                  (\<forall>x \<in> set pre. \<bar>rc_val rc - val mi\<bar> < \<bar>rc_val x - val mi\<bar>) \<and>
                  (\<forall>x \<in> set post. \<bar>rc_val rc - val mi\<bar> \<le> \<bar>rc_val x - val mi\<bar>)))) \<and>
         map_option (map_sum id result_reports) (analyze img_collection first_args Files) =
           Some (Inr [[(3, 4, 2, ''internal'', [''img_003.png'', ''img_004.png''])]])"
proof -
  have ex: "map_option (map_sum id result_reports) (analyze img_collection first_args Files) =
           Some (Inr [[(3, 4, 2, ''internal'', [''img_003.png'', ''img_004.png''])]])"
    by code_simp
  have gen: "\<exists>r. detect_breaks_in_group g sn en mb inc expl = Some (Inr r) \<and>
            (\<forall>seg \<in> set (segments r). \<forall>mi \<in> set (missing_items seg).
               padded mi = zfill (py_str (val mi)) (length (py_str (end_val seg))) \<and>
               (\<exists>pre rc post. real_cov_of (picks g) = pre @ rc # post \<and>
                  prefix mi = rc_prefix rc \<and> suffix mi = rc_suffix rc \<and>
                  (\<forall>x \<in> set pre. \<bar>rc_val rc - val mi\<bar> < \<bar>rc_val x - val mi\<bar>) \<and>
                  (\<forall>x \<in> set post. \<bar>rc_val rc - val mi\<bar> \<le> \<bar>rc_val x - val mi\<bar>)))"
  proof (cases "picks g = []")
    case True
    with assms show ?thesis by (simp add: detect_eq empty_result_def)
  next
    case False
    let ?rci = "real_cov_of (picks g)"
    let ?raw = "raw_segments (observed g) sn en mb inc expl"
    from False assms(1) have ne: "?rci \<noteq> []" by (simp add: real_cov_of_Nil)
    have "padded mi = zfill (py_str (val mi)) (length (py_str (end_val seg))) \<and>
               (\<exists>pre rc post. ?rci = pre @ rc # post \<and>
                  prefix mi = rc_prefix rc \<and> suffix mi = rc_suffix rc \<and>
                  (\<forall>x \<in> set pre. \<bar>rc_val rc - val mi\<bar> < \<bar>rc_val x - val mi\<bar>) \<and>
                  (\<forall>x \<in> set post. \<bar>rc_val rc - val mi\<bar> \<le> \<bar>rc_val x - val mi\<bar>))"
      if seg: "seg \<in> set (fill_prefix ?rci ?raw)" and mi: "mi \<in> set (missing_items seg)"
      for seg mi
    proof -
      from fill_prefix_items [OF seg mi] obtain s m where s: "s \<in> set ?raw"
        and e: "end_val seg = end_val s" and m: "m \<in> set (missing_items s)"
        and v: "val mi = val m" "padded mi = padded m"
        and c: "(prefix mi, suffix mi) = find_closest_prefix_suffix (val m) ?rci"
        by blast
      from raw_segments_shape [OF s] obtain st ed bt where so: "s = segment_of st ed bt expl mb inc"
        by blast
      have ed: "end_val s = ed" by (simp add: so segment_of_def)
      from m have "padded m = zfill (py_str (val m)) (length (py_str ed))"
        unfolding so by (rule segment_of_items)
      with v e ed have pad: "padded mi = zfill (py_str (val mi)) (length (py_str (end_val seg)))"
        by simp
      from find_closest_first_nearest [OF ne, of "val m"] obtain pre rc post
        where "?rci = pre @ rc # post"
          "find_closest_prefix_suffix (val m) ?rci = (rc_prefix rc, rc_suffix rc)"
          "\<forall>x \<in> set pre. \<bar>rc_val rc - val m\<bar> < \<bar>rc_val x - val m\<bar>"
          "\<forall>x \<in> set post. \<bar>rc_val rc - val m\<bar> \<le> \<bar>rc_val x - val m\<bar>"
        by blast
      with c v(1) have "?rci = pre @ rc # post \<and>
                  prefix mi = rc_prefix rc \<and> suffix mi = rc_suffix rc \<and>
                  (\<forall>x \<in> set pre. \<bar>rc_val rc - val mi\<bar> < \<bar>rc_val x - val mi\<bar>) \<and>
                  (\<forall>x \<in> set post. \<bar>rc_val rc - val mi\<bar> \<le> \<bar>rc_val x - val mi\<bar>)"
        by simp
      then have "\<exists>pre rc post. ?rci = pre @ rc # post \<and>
                  prefix mi = rc_prefix rc \<and> suffix mi = rc_suffix rc \<and>
                  (\<forall>x \<in> set pre. \<bar>rc_val rc - val mi\<bar> < \<bar>rc_val x - val mi\<bar>) \<and>
                  (\<forall>x \<in> set post. \<bar>rc_val rc - val mi\<bar> \<le> \<bar>rc_val x - val mi\<bar>)"
        by blast
      with pad show ?thesis by blast
    qed
    with False assms show ?thesis by (simp add: detect_eq)
  qed
  from gen ex show ?thesis by blast
qed

theorem reconstruction_nearest_witness:
  "list_all (\<lambda>p. coverage p \<noteq> []) (picks boundary_group) \<and> (1::int) \<le> 1 \<and>
   (\<exists>r. detect_breaks_in_group boundary_group None None None 1 False = Some (Inr r) \<and>
        list_all (\<lambda>seg. list_all (\<lambda>mi.
            padded mi = zfill (py_str (val mi)) (length (py_str (end_val seg))))
          (missing_items seg)) (segments r) \<and>
        map segment_report (segments r) =
          [(106, 109, 4, ''internal'',
            [''scan_106.tif'', ''scan_107.tif'', ''scan_108.tif'', ''scan_109.tif''])])"
proof -
  have h1: "\<forall>p \<in> set (picks boundary_group). coverage p \<noteq> []"
    by (simp add: boundary_group_def)
  have ev: "map_option (map_sum id (\<lambda>r. map segment_report (segments r)))
      (detect_breaks_in_group boundary_group None None None 1 False) =
      Some (Inr [(106, 109, 4, ''internal'',
            [''scan_106.tif'', ''scan_107.tif'', ''scan_108.tif'', ''scan_109.tif''])])"
    by code_simp
  from reconstruction_nearest [OF h1, of 1 None None None False, THEN conjunct1]
  obtain r where r: "detect_breaks_in_group boundary_group None None None 1 False = Some (Inr r)"
    and p: "\<forall>seg \<in> set (segments r). \<forall>mi \<in> set (missing_items seg).
               padded mi = zfill (py_str (val mi)) (length (py_str (end_val seg)))"
    by auto
  from ev r have "map segment_report (segments r) =
      [(106, 109, 4, ''internal'',
            [''scan_106.tif'', ''scan_107.tif'', ''scan_108.tif'', ''scan_109.tif''])]"
    by simp
  with r p h1 show ?thesis by (auto simp: list_all_iff)
qed

subsection \<open>Grouping\<close>

lemma adjacent_snoc:
  "adjacent (xs @ [x]) = adjacent xs @ (if xs = [] then [] else [(last xs, x)])"
  unfolding adjacent_def by (induction xs rule: induct_list012) simp_all

lemma within_single [simp]: "within t [p]"
  by (simp add: within_def adjacent_def)

lemma within_snoc:
  "c \<noteq> [] \<Longrightarrow> within t (c @ [p]) \<longleftrightarrow> within t c \<and> rep p - rep (last c) \<le> t"
  by (simp add: within_def adjacent_snoc)

lemma split_ok_close:
  assumes "split_ok t (rs @ [c])" and "rep p - rep (last c) > t"
  shows "split_ok t ((rs @ [c]) @ [[p]])"
proof -
  have a: "adjacent (rs @ [c, [p]]) = adjacent (rs @ [c]) @ [(c, [p])]"
    using adjacent_snoc [of "rs @ [c]" "[p]"] by simp
  from assms show ?thesis
    unfolding split_ok_def by (simp add: a)
qed

lemma split_ok_extend:
  assumes "split_ok t (rs @ [c])" and "\<not> rep p - rep (last c) > t"
  shows "split_ok t (rs @ [c @ [p]])"
proof -
  from assms(1) have c: "c \<noteq> []" "within t c" by (simp_all add: split_ok_def)
  with assms(2) have w: "within t (c @ [p])" by (simp add: within_snoc)
  from c have h: "hd (c @ [p]) = hd c" by simp
  show ?thesis
  proof (cases "rs = []")
    case True
    with w show ?thesis by (simp add: split_ok_def adjacent_def)
  next
    case False
    with assms(1) w c show ?thesis
      unfolding split_ok_def by (simp add: adjacent_snoc h)
  qed
qed

lemma subgroups_loop_inv:
  assumes "\<forall>p \<in> set ps. coverage p \<noteq> []" and "split_ok t (map picks groups @ [citems])"
  shows "\<exists>groups' citems' idx'.
           subgroups_loop dkey t at ps groups (Some (rep (last citems))) citems idx =
             Inr (groups', citems', idx') \<and>
           split_ok t (map picks groups' @ [citems']) \<and>
           (\<forall>g \<in> set groups'. g \<in> set groups \<or> directory g = Some dkey) \<and>
           concat (map picks groups') @ citems' = concat (map picks groups) @ citems @ ps"
  using assms
proof (induction ps arbitrary: groups citems idx)
  case Nil
  then show ?case by simp
next
  case (Cons p ps)
  from Cons.prems(1) obtain mv r where cov: "coverage p = mv # r" by (cases "coverage p") auto
  then have rp: "rep p = mv" by (simp add: rep_def)
  from Cons.prems(1) have rest: "\<forall>p \<in> set ps. coverage p \<noteq> []" by simp
  show ?case
  proof (cases "mv - rep (last citems) > t")
    case True
    let ?g = "\<lparr>group_id = dkey @ ''__group'' @ py_str (int idx), directory = Some dkey,
               label = compute_group_label_for_picks citems, artifact_type = at,
               picks = citems\<rparr>"
    from Cons.prems(2) True rp
    have "split_ok t (map picks (groups @ [?g]) @ [[p]])"
      using split_ok_close [of t "map picks groups" citems p] by simp
    from Cons.IH [OF rest this, of "idx + 1"] rp
    obtain groups' citems' idx' where
      "subgroups_loop dkey t at ps (groups @ [?g]) (Some mv) [p] (idx + 1) =
         Inr (groups', citems', idx')"
      "split_ok t (map picks groups' @ [citems'])"
      "\<forall>g \<in> set groups'. g \<in> set (groups @ [?g]) \<or> directory g = Some dkey"
      "concat (map picks groups') @ citems' = concat (map picks (groups @ [?g])) @ [p] @ ps"
      by auto
    with True cov show ?thesis by auto
  next
    case False
    from Cons.prems(2) False rp
    have s: "split_ok t (map picks groups @ [citems @ [p]])"
      using split_ok_extend [of t "map picks groups" citems p] by simp
    from Cons.IH [OF rest s, of idx] rp
    obtain groups' citems' idx' where
      "subgroups_loop dkey t at ps groups (Some mv) (citems @ [p]) idx =
         Inr (groups', citems', idx')"
      "split_ok t (map picks groups' @ [citems'])"
      "\<forall>g \<in> set groups'. g \<in> set groups \<or> directory g = Some dkey"
      "concat (map picks groups') @ citems' = concat (map picks groups) @ (citems @ [p]) @ ps"
      by auto
    with False cov show ?thesis by auto
  qed
qed

lemma build_subgroups_split:
  assumes "\<forall>p \<in> set pks. coverage p \<noteq> []" and "t \<noteq> 0"
  shows "\<exists>gs. build_subgroups_in_dir dkey pks (Some t) at = Inr gs \<and>
           concat (map picks gs) = pks \<and> split_ok t (map picks gs) \<and>
           (\<forall>g \<in> set gs. directory g = Some dkey)"
proof (cases pks)
  case Nil
  with assms(2) show ?thesis
    by (simp add: build_subgroups_in_dir_def truthy_def split_ok_def adjacent_def)
next
  case (Cons p ps)
  with assms(1) obtain mv r where cov: "coverage p = mv # r" by (cases "coverage p") auto
  then have rp: "rep (last [p]) = mv" by (simp add: rep_def)
  from assms(1) Cons have rest: "\<forall>p \<in> set ps. coverage p \<noteq> []" by simp
  have "split_ok t (map picks [] @ [[p]])" by (simp add: split_ok_def adjacent_def)
  from subgroups_loop_inv [OF rest this, of dkey at 0] rp
  obtain groups' citems' idx' where l: "subgroups_loop dkey t at ps [] (Some mv) [p] 0 =
             Inr (groups', citems', idx')"
    and s: "split_ok t (map picks groups' @ [citems'])"
    and d: "\<forall>g \<in> set groups'. directory g = Some dkey"
    and c: "concat (map picks groups') @ citems' = [p] @ ps"
    by auto
  from s have ne: "citems' \<noteq> []" by (simp add: split_ok_def)
  from l ne s d c Cons cov assms(2) show ?thesis
    by (simp add: build_subgroups_in_dir_def truthy_def)
qed

lemma build_subgroups_single:
  "\<not> truthy thr \<Longrightarrow> \<exists>g. build_subgroups_in_dir dkey pks thr at = Inr [g] \<and> picks g = pks \<and>
     directory g = Some dkey"
  by (simp add: build_subgroups_in_dir_def)


lemma picks_of_items_nonempty:
  "picks_of_items a its pks = Inr pks' \<Longrightarrow> \<forall>p \<in> set pks. coverage p \<noteq> [] \<Longrightarrow>
   \<forall>p \<in> set pks'. coverage p \<noteq> []"
proof (induction its arbitrary: pks)
  case Nil
  then show ?case by simp
next
  case (Cons it its)
  show ?case
  proof (cases "item_passes_filter it (pattern a) (filter_arg a)")
    case False
    with Cons show ?thesis by simp
  next
    case True
    with Cons.prems(1) obtain cl
      where cl: "parse_coverage_list it (block_policy a) (multi_range a) (range_regex a) = Inr cl"
        and l: "picks_of_items a its (pks @ map (\<lambda>c. \<lparr>item = it, coverage = c\<rparr>) cl) = Inr pks'"
      by (auto split: sum.splits)
    from parse_nonempty [OF cl] Cons.prems(2)
    have "\<forall>p \<in> set (pks @ map (\<lambda>c. \<lparr>item = it, coverage = c\<rparr>) cl). coverage p \<noteq> []"
      by auto
    with l show ?thesis by (rule Cons.IH)
  qed
qed

lemma picks_of_items_ok:
  "extractable a its \<Longrightarrow> \<exists>pks'. picks_of_items a its pks = Inr pks'"
proof (induction its arbitrary: pks)
  case Nil
  then show ?case by simp
next
  case (Cons it its)
  from Cons.prems have r: "extractable a its"
    and n: "multi_range a \<longrightarrow> list_all numeric_match (range_regex a (name it))"
    and l: "runs_in_limit (name it)"
    by (simp_all add: extractable_def)
  from parse_ok [of "multi_range a" "range_regex a" it "block_policy a"] n l obtain cl
    where "parse_coverage_list it (block_policy a) (multi_range a) (range_regex a) = Inr cl"
    by blast
  with Cons.IH [OF r] show ?case by simp
qed

lemma groups_of_dirs_out:
  "groups_of_dirs a at ds out =
     (case groups_of_dirs a at ds [] of Inl e \<Rightarrow> Inl e | Inr gs \<Rightarrow> Inr (out @ gs))"
proof (induction ds arbitrary: out)
  case Nil
  then show ?case by simp
next
  case (Cons d ds)
  obtain dkey its where d: "d = (dkey, its)" by (cases d)
  have step: "groups_of_dirs a at ds (out @ gs) =
      (case groups_of_dirs a at ds gs of Inl e \<Rightarrow> Inl e | Inr r \<Rightarrow> Inr (out @ r))" for gs
    by (subst Cons.IH [of "out @ gs"], subst Cons.IH [of gs]) (simp split: sum.splits)
  show ?case
    unfolding d using step [of "[]"] Cons.IH [of out]
    by (simp add: step split: sum.splits)
qed

lemma group_items_Cons:
  assumes "\<not> cross_dir_grouping a"
  shows "group_items (d # ds) a at =
     (case group_items [d] a at of
        Inl e \<Rightarrow> Inl e
      | Inr g1 \<Rightarrow> (case group_items ds a at of Inl e \<Rightarrow> Inl e | Inr g2 \<Rightarrow> Inr (g1 @ g2)))"
proof -
  obtain dkey its where d: "d = (dkey, its)" by (cases d)
  let ?rest = "groups_of_dirs a at ds []"
  have g: "group_items ds a at = ?rest"
    "group_items ((dkey, its) # ds) a at = groups_of_dirs a at ((dkey, its) # ds) []"
    "group_items [(dkey, its)] a at = groups_of_dirs a at [(dkey, its)] []"
    using assms by (simp_all add: group_items_def)
  show ?thesis
  proof (cases "picks_of_items a its []")
    case (Inl e)
    then show ?thesis unfolding d g by simp
  next
    case (Inr pks)
    show ?thesis
    proof (cases "pks = []")
      case True
      with Inr show ?thesis unfolding d g by (simp split: sum.splits)
    next
      case ne: False
      show ?thesis
      proof (cases "\<exists>p \<in> set pks. coverage p = []")
        case True
        with Inr ne show ?thesis unfolding d g by simp
      next
        case False
        show ?thesis
        proof (cases "build_subgroups_in_dir dkey
                    (sort_key (\<lambda>x. (hd (coverage x), name (item x))) pks)
                    (group_threshold a) at")
          case (Inl e)
          with Inr ne False show ?thesis unfolding d g by simp
        next
          case b: (Inr gs)
          have "groups_of_dirs a at ds gs =
              (case ?rest of Inl e \<Rightarrow> Inl e | Inr r \<Rightarrow> Inr (gs @ r))"
            by (rule groups_of_dirs_out)
          with Inr ne False b show ?thesis unfolding d g by simp
        qed
      qed
    qed
  qed
qed


lemma flat_loop_no_threshold:
  "\<not> truthy thr \<Longrightarrow> \<forall>x \<in> set fs. snd (snd x) \<noteq> [] \<Longrightarrow>
   flat_loop thr at fs groups (Some lv) citems idx = Inr (groups, citems @ fs, idx)"
proof (induction fs arbitrary: lv citems)
  case Nil
  then show ?case by simp
next
  case (Cons x fs)
  obtain dkey it cov where x: "x = (dkey, it, cov)" by (cases x)
  with Cons.prems(2) obtain mv r where cov: "cov = mv # r" by (cases cov) auto
  from Cons.prems(2) have rest: "\<forall>x \<in> set fs. snd (snd x) \<noteq> []" by simp
  show ?case
    using Cons.prems(1) Cons.IH [OF Cons.prems(1) rest, of mv "citems @ [x]"]
    by (simp add: x cov)
qed

lemma build_groups_from_flat_single:
  assumes "flat \<noteq> []" and "\<forall>x \<in> set flat. snd (snd x) \<noteq> []" and "\<not> truthy thr"
  shows "\<exists>g. build_groups_from_flat flat thr at = Inr [g] \<and> directory g = None \<and>
           picks g = map pick_of_flat (sort_key flat_key flat)"
proof -
  have k: "(\<lambda>x. (hd (snd (snd x)), name (fst (snd x)))) = flat_key"
    by (rule ext) (simp add: flat_key_def)
  have pf: "(\<lambda>xx. \<lparr>item = fst (snd xx), coverage = snd (snd xx)\<rparr>) = pick_of_flat"
    by (rule ext) (simp add: pick_of_flat_def)
  from assms(1) have "sort_key flat_key flat \<noteq> []"
    by (metis length_sort length_0_conv)
  then obtain x fs where sf: "sort_key flat_key flat = x # fs" by (cases "sort_key flat_key flat") auto
  have "set (x # fs) = set flat" by (metis sf set_sort)
  with assms(2) have all: "\<forall>y \<in> set (x # fs). snd (snd y) \<noteq> []" by blast
  obtain dkey it cov where x: "x = (dkey, it, cov)" by (cases x)
  with all obtain mv r where cov: "cov = mv # r" by (cases cov) auto
  from all have rest: "\<forall>y \<in> set fs. snd (snd y) \<noteq> []" by simp
  have "flat_loop thr at (x # fs) [] None [] 0 = Inr ([], [x] @ fs, 0)"
    using flat_loop_no_threshold [OF assms(3) rest, of at "[]" mv "[x]" 0] by (simp add: x cov)
  with assms(2) show ?thesis
    by (simp add: build_groups_from_flat_def k pf sf)
qed

lemma group_items_one_directory:
  assumes "\<not> cross_dir_grouping a" and "picks_of_items a its [] = Inr pks"
  shows "\<exists>gs. group_items [(dkey, its)] a at = Inr gs \<and>
           concat (map picks gs) = sort_key pick_key pks \<and>
           (\<forall>g \<in> set gs. directory g = Some dkey) \<and>
           (\<forall>t. group_threshold a = Some t \<and> t \<noteq> 0 \<longrightarrow> split_ok t (map picks gs)) \<and>
           (\<not> truthy (group_threshold a) \<and> pks \<noteq> [] \<longrightarrow> length gs = 1)"
proof (cases "pks = []")
  case True
  with assms show ?thesis by (simp add: group_items_def split_ok_def adjacent_def)
next
  case False
  have k: "(\<lambda>x. (hd (coverage x), name (item x))) = pick_key"
    by (rule ext) (simp add: pick_key_def)
  from picks_of_items_nonempty [OF assms(2)] have ne: "\<forall>p \<in> set pks. coverage p \<noteq> []" by simp
  then have ne': "\<forall>p \<in> set (sort_key pick_key pks). coverage p \<noteq> []" by simp
  have g: "group_items [(dkey, its)] a at =
      (case build_subgroups_in_dir dkey (sort_key pick_key pks) (group_threshold a) at of
         Inl e \<Rightarrow> Inl e | Inr gs \<Rightarrow> Inr gs)"
    using assms False ne by (simp add: group_items_def k split: sum.splits)
  show ?thesis
  proof (cases "truthy (group_threshold a)")
    case True
    then obtain t where t: "group_threshold a = Some t" "t \<noteq> 0"
      by (auto simp: truthy_def split: option.splits)
    from build_subgroups_split [OF ne' t(2), of dkey at]
    obtain gs where "build_subgroups_in_dir dkey (sort_key pick_key pks) (Some t) at = Inr gs"
      "concat (map picks gs) = sort_key pick_key pks" "split_ok t (map picks gs)"
      "\<forall>g \<in> set gs. directory g = Some dkey"
      by blast
    with g t True show ?thesis by simp
  next
    case nt: False
    from build_subgroups_single [OF nt, of dkey "sort_key pick_key pks" at]
    obtain gr where "build_subgroups_in_dir dkey (sort_key pick_key pks) (group_threshold a) at = Inr [gr]"
      "picks gr = sort_key pick_key pks" "directory gr = Some dkey"
      by blast
    with g nt show ?thesis by (auto simp: truthy_def)
  qed
qed

text \<open>
  C5, in the form that holds. In per-directory grouping the picks of a directory are
  sorted by (representative value, name), and the groups of the directory are the sorted
  picks cut into runs; every directory is grouped by itself. With a threshold other than
  0 a new group starts exactly where the gap between successive representative values
  exceeds the threshold; with threshold 5 and the representative values 1, 2, 50, 51 the
  groups are \<open>{1,2}\<close> and \<open>{50,51}\<close>. With no threshold, or the threshold 0, a
  directory with at least one pick is exactly one group, and so is a non-empty pool in
  cross-directory mode.
\<close>

theorem per_directory_grouping:
  "(\<not> cross_dir_grouping a \<and> picks_of_items a its [] = Inr pks \<longrightarrow>
      (\<exists>gs. group_items [(dkey, its)] a at = Inr gs \<and>
           concat (map picks gs) = sort_key pick_key pks \<and>
           (\<forall>g \<in> set gs. directory g = Some dkey) \<and>
           (\<forall>t. group_threshold a = Some t \<and> t \<noteq> 0 \<longrightarrow> split_ok t (map picks gs)) \<and>
           (\<not> truthy (group_threshold a) \<and> pks \<noteq> [] \<longrightarrow> length gs = 1))) \<and>
   (\<not> cross_dir_grouping a \<longrightarrow>
      group_items (d # ds) a at =
        (case group_items [d] a at of
           Inl e \<Rightarrow> Inl e
         | Inr g1 \<Rightarrow> (case group_items ds a at of Inl e \<Rightarrow> Inl e | Inr g2 \<Rightarrow> Inr (g1 @ g2)))) \<and>
   (flat \<noteq> [] \<and> (\<forall>x \<in> set flat. snd (snd x) \<noteq> []) \<and> \<not> truthy thr \<longrightarrow>
      (\<exists>g. build_groups_from_flat flat thr at = Inr [g] \<and> directory g = None \<and>
           picks g = map pick_of_flat (sort_key flat_key flat))) \<and>
   (\<exists>gs. build_subgroups_in_dir ''/data'' numbered_picks (Some 5) Files = Inr gs \<and>
        map (\<lambda>g. map rep (picks g)) gs = [[1, 2], [50, 51]])"
proof -
  have "map_sum id (map (\<lambda>g. map rep (picks g)))
          (build_subgroups_in_dir ''/data'' numbered_picks (Some 5) Files) =
        Inr [[1, 2], [50, 51]]"
    by code_simp
  then have ex: "\<exists>gs. build_subgroups_in_dir ''/data'' numbered_picks (Some 5) Files = Inr gs \<and>
        map (\<lambda>g. map rep (picks g)) gs = [[1, 2], [50, 51]]"
    by (cases "build_subgroups_in_dir ''/data'' numbered_picks (Some 5) Files") simp_all
  show ?thesis
    using group_items_one_directory [of a its pks dkey at] group_items_Cons [of a d ds at]
      build_groups_from_flat_single [of flat thr at] ex
    by blast
qed

theorem per_directory_grouping_witness:
  "\<not> cross_dir_grouping threshold_args \<and>
   (\<exists>pks gs. picks_of_items threshold_args (snd (hd take_collection)) [] = Inr pks \<and>
      group_items take_collection threshold_args Files = Inr gs \<and>
      concat (map picks gs) = sort_key pick_key pks \<and>
      split_ok 5 (map picks gs) \<and>
      map (\<lambda>g. map rep (picks g)) gs = [[1, 2], [50, 51]])"
proof -
  have c: "\<not> cross_dir_grouping threshold_args"
    by (simp add: threshold_args_def default_args_def)
  have t: "group_threshold threshold_args = Some 5"
    by (simp add: threshold_args_def default_args_def)
  have tc: "take_collection = [(''/data'', snd (hd take_collection))]"
    by (simp add: take_collection_def)
  have "extractable threshold_args (snd (hd take_collection))"
    by (simp add: extractable_def runs_in_limit_def max_str_digits_def threshold_args_def
        default_args_def take_collection_def file_item_def is_digit_def)
  then obtain pks where p: "picks_of_items threshold_args (snd (hd take_collection)) [] = Inr pks"
    using picks_of_items_ok by blast
  from per_directory_grouping
    [of threshold_args "snd (hd take_collection)" pks "''/data''" Files, THEN conjunct1] c p t tc
  obtain gs where gs: "group_items take_collection threshold_args Files = Inr gs"
    "concat (map picks gs) = sort_key pick_key pks" "split_ok 5 (map picks gs)"
    by auto
  have "map_sum id (map (\<lambda>g. map rep (picks g))) (group_items take_collection threshold_args Files) =
        Inr [[1, 2], [50, 51]]"
    by code_simp
  with gs(1) have m: "map (\<lambda>g. map rep (picks g)) gs = [[1, 2], [50, 51]]" by simp
  from p gs m have "\<exists>pks gs. picks_of_items threshold_args (snd (hd take_collection)) [] = Inr pks \<and>
      group_items take_collection threshold_args Files = Inr gs \<and>
      concat (map picks gs) = sort_key pick_key pks \<and>
      split_ok 5 (map picks gs) \<and>
      map (\<lambda>g. map rep (picks g)) gs = [[1, 2], [50, 51]]"
    by (intro exI [of _ pks] exI [of _ gs]) simp
  with c show ?thesis by simp
qed

theorem zero_threshold_counterexample:
  "\<exists>gs. build_subgroups_in_dir ''/data'' numbered_picks (Some 0) Files = Inr gs \<and>
        map (\<lambda>g. map rep (picks g)) gs = [[1, 2, 50, 51]] \<and>
        \<not> split_ok 0 (map picks gs)"
proof -
  have "map_sum id (\<lambda>gs. (map (\<lambda>g. map rep (picks g)) gs, split_ok 0 (map picks gs)))
          (build_subgroups_in_dir ''/data'' numbered_picks (Some 0) Files) =
        Inr ([[1, 2, 50, 51]], False)"
    by code_simp
  then show ?thesis
    by (cases "build_subgroups_in_dir ''/data'' numbered_picks (Some 0) Files") simp_all
qed

subsection \<open>Configurations that are not checked\<close>

lemma internal_loop_diverges:
  assumes "inc \<le> 0" and "sorted xs" and "distinct xs" and "2 \<le> length xs"
  shows "internal_loop xs expl mb inc segs = None"
proof -
  from assms(4) obtain c n rest where xs: "xs = c # n # rest"
    by (cases xs; cases "tl xs") auto
  with assms(2,3) have "c < n" by auto
  with assms(1) have g: "n - c > inc" and le: "c + inc \<le> n - 1" by simp_all
  from le assms(1) have "missing_loop (c + inc) (n - 1) inc (length (py_str (n - 1))) ''internal''
      expl mb [] = None"
    by (simp add: missing_loop_diverges)
  with le have "build_missing_segment (c + inc) (n - 1) ''internal'' expl mb inc = None"
    by (simp add: build_missing_segment_def)
  with g show ?thesis by (simp add: xs append_segment_def)
qed

lemma detect_diverges:
  assumes "\<forall>p \<in> set (picks g). coverage p \<noteq> []" and "inc \<le> 0" and "2 \<le> length (observed g)"
  shows "detect_breaks_in_group g None en None inc expl = None"
proof -
  from assms(3) have o: "observed g \<noteq> []" by (cases "observed g") auto
  then have "picks g \<noteq> []" by (auto simp: observed_def sorted_set_def)
  with o have ne: "picks g \<noteq> []" "sorted_set (concat (map coverage (picks g))) \<noteq> []"
    by (simp_all add: observed_def)
  have "internal_loop (observed g) expl None inc [] = None"
    using assms(2,3) by (intro internal_loop_diverges) (simp_all add: observed_def sorted_set_props)
  with ne show ?thesis
    by (simp add: detect_breaks_in_group_def scan_picks_eq [OF assms(1)] Let_def
        observed_def)
qed

lemma missing_entry_zero: "missing_entry pl bt expl (Some 0) = missing_entry pl bt expl None"
  by (rule ext) (simp add: missing_entry_def truthy_def)

lemma detect_zero_modulus:
  assumes "\<forall>p \<in> set (picks g). coverage p \<noteq> []" and "1 \<le> inc"
  shows "detect_breaks_in_group g sn en (Some 0) inc expl =
         detect_breaks_in_group g sn en None inc expl"
proof -
  have sg: "segment_of st ed bt expl (Some 0) inc = segment_of st ed bt expl None inc" for st ed bt
    by (simp add: segment_of_def missing_entry_zero)
  have s0: "seq_start_of sn (Some 0) x = seq_start_of sn None x" for x
    by (simp add: seq_start_of_def split: option.splits)
  have e0: "seq_end_of en (Some 0) x = seq_end_of en None x" for x
    by (simp add: seq_end_of_def split: option.splits)
  have "raw_segments xs sn en (Some 0) inc expl = raw_segments xs sn en None inc expl" for xs
    by (simp add: raw_segments_def internal_segments_def sg s0 e0)
  then show ?thesis by (simp add: detect_eq [OF assms])
qed

text \<open>
  C2, in the form that holds: no configuration is rejected. For every explicit start and
  end (also a start above the end) and every modulus boundary (also one that is zero or
  negative), with an increment of at least one, the detector returns a result for the
  group and raises nothing; a modulus boundary of 0 has the effect of none.
\<close>

theorem no_configuration_check:
  assumes "\<forall>p \<in> set (picks g). coverage p \<noteq> []" and "1 \<le> inc"
  shows "(\<exists>r. detect_breaks_in_group g sn en mb inc expl = Some (Inr r) \<and> group_info r = g) \<and>
         detect_breaks_in_group g sn en (Some 0) inc expl =
           detect_breaks_in_group g sn en None inc expl"
proof
  show "\<exists>r. detect_breaks_in_group g sn en mb inc expl = Some (Inr r) \<and> group_info r = g"
    using assms by (simp add: detect_eq empty_result_def)
  show "detect_breaks_in_group g sn en (Some 0) inc expl =
           detect_breaks_in_group g sn en None inc expl"
    using assms by (rule detect_zero_modulus)
qed

theorem no_configuration_check_witness:
  "list_all (\<lambda>p. coverage p \<noteq> []) (picks boundary_group) \<and> (1::int) \<le> 1 \<and>
   (\<exists>r. detect_breaks_in_group boundary_group (Some 200) (Some 50) (Some (- 100)) 1 False =
          Some (Inr r) \<and>
        group_info r = boundary_group \<and>
        map seg_bounds (segments r) = [(106, 109, ''internal'')])"
proof -
  have h1: "\<forall>p \<in> set (picks boundary_group). coverage p \<noteq> []"
    by (simp add: boundary_group_def)
  have ev: "map_option (map_sum id (\<lambda>r. map seg_bounds (segments r)))
      (detect_breaks_in_group boundary_group (Some 200) (Some 50) (Some (- 100)) 1 False) =
      Some (Inr [(106, 109, ''internal'')])"
    by code_simp
  from no_configuration_check [OF h1, of 1 "Some 200" "Some 50" "Some (- 100)" False, THEN conjunct1]
  obtain r where r: "detect_breaks_in_group boundary_group (Some 200) (Some 50) (Some (- 100)) 1 False =
          Some (Inr r)" "group_info r = boundary_group"
    by auto
  with ev have "map seg_bounds (segments r) = [(106, 109, ''internal'')]" by simp
  with r h1 show ?thesis by (auto simp: list_all_iff)
qed

theorem invalid_configuration_counterexample:
  "(\<exists>rs. analyze img_collection reversed_bounds_args Files = Some (Inr rs) \<and>
         result_reports rs = [[(3, 4, 2, ''internal'', [''img_003.png'', ''img_004.png''])]]) \<and>
   (\<exists>rs. analyze img_collection negative_modulus_args Files = Some (Inr rs) \<and>
         result_reports rs = [[(3, 4, 2, ''internal'', [''img_003.png'', ''img_004.png''])]]) \<and>
   detect_breaks_in_group boundary_group None None None 0 False = None"
proof -
  have "map_option (map_sum id result_reports) (analyze img_collection reversed_bounds_args Files) =
      Some (Inr [[(3, 4, 2, ''internal'', [''img_003.png'', ''img_004.png''])]])"
    by code_simp
  then have a: "\<exists>rs. analyze img_collection reversed_bounds_args Files = Some (Inr rs) \<and>
         result_reports rs = [[(3, 4, 2, ''internal'', [''img_003.png'', ''img_004.png''])]]"
    by (rule map_result_Inr)
  have "map_option (map_sum id result_reports) (analyze img_collection negative_modulus_args Files) =
      Some (Inr [[(3, 4, 2, ''internal'', [''img_003.png'', ''img_004.png''])]])"
    by code_simp
  then have b: "\<exists>rs. analyze img_collection negative_modulus_args Files = Some (Inr rs) \<and>
         result_reports rs = [[(3, 4, 2, ''internal'', [''img_003.png'', ''img_004.png''])]]"
    by (rule map_result_Inr)
  have "observed boundary_group = [105, 110]"
    by (simp add: boundary_group_def observed_def sorted_set_def)
  then have c: "detect_breaks_in_group boundary_group None None None 0 False = None"
    by (intro detect_diverges) (simp_all add: boundary_group_def)
  from a b c show ?thesis by blast
qed

subsection \<open>Totality and the number of steps\<close>






















end
